theory Spec2Isabelle
  imports Complex_Main "HOL-Library.Word" "HOL-Library.Monad_Syntax"
begin

unbundle bit_operations_syntax

section \<open>Conventions of the embedding\<close>

text \<open>
  The development embeds the convolution machinery of
  \<^verbatim>\<open>source/blender/compositor/operations/COM_GlareFogGlowOperation.cc\<close>.

  \<^item> A C array is a list together with the offsets of the pointers into it. Every read
    and write is checked against the length of the allocation: an access outside of it
    (undefined behaviour in C++) makes the operation return \<open>None\<close>.
  \<^item> Samples (\<^verbatim>\<open>fREAL\<close>, that is \<^verbatim>\<open>float\<close>, and the \<^verbatim>\<open>double\<close> temporaries of the
    butterfly) are real numbers: rounding is not part of the model.
  \<^item> \<^verbatim>\<open>next_pow2\<close> works on 32-bit words, as the source does. The index arithmetic of
    the transforms is done in \<open>nat\<close>; it agrees with the \<^verbatim>\<open>unsigned int\<close> arithmetic of
    the source as long as no value reaches \<open>2^32\<close>. An unsigned decrement below zero is
    reported as \<open>None\<close> where the source could reach it.
  \<^item> A loop whose termination depends on its arguments is a \<open>partial_function\<close> in the
    option monad, so that \<open>None\<close> also stands for a loop that does not return.
\<close>

subsection \<open>Checked array accesses\<close>

definition rd :: "'a list \<Rightarrow> nat \<Rightarrow> 'a option" where
  "rd buf i = (if i < length buf then Some (buf ! i) else None)"

definition wr :: "'a list \<Rightarrow> nat \<Rightarrow> 'a \<Rightarrow> 'a list option" where
  "wr buf i v = (if i < length buf then Some (buf[i := v]) else None)"

section \<open>\<^verbatim>\<open>next_pow2\<close>\<close>

text \<open>The loop \<^verbatim>\<open>while (x >>= 1) ++(*L2);\<close>.\<close>

function next_pow2_loop :: "32 word \<Rightarrow> 32 word \<Rightarrow> 32 word" where
  "next_pow2_loop x L2 =
     (let x' = drop_bit 1 x in if x' \<noteq> 0 then next_pow2_loop x' (L2 + 1) else L2)"
  by pat_completeness auto
termination
proof (relation "measure (\<lambda>(x, L2). unat x)")
  show "wf (measure (\<lambda>(x :: 32 word, L2 :: 32 word). unat x))"
    by simp
next
  fix x :: "32 word" and L2 :: "32 word" and x' :: "32 word"
  assume x': "x' = drop_bit 1 x" and nz: "x' \<noteq> 0"
  have "unat x' = unat x div 2"
    by (simp add: x' drop_bit_eq_div unat_div)
  moreover have "unat x' \<noteq> 0"
    using nz by (simp add: unat_eq_0)
  ultimately have "unat x' < unat x"
    by linarith
  then show "((x', L2 + 1), (x, L2)) \<in> measure (\<lambda>(x, L2). unat x)"
    by simp
qed

text \<open>The result is the pair (returned power, value stored in \<^verbatim>\<open>*L2\<close>).\<close>

definition next_pow2 :: "32 word \<Rightarrow> 32 word \<times> 32 word" where
  "next_pow2 x =
     (let x_notpow2 = x AND (x - 1);
          L2 = next_pow2_loop x 0;
          pw = push_bit (unat L2) 1
      in if x_notpow2 \<noteq> 0 then (push_bit 1 pw, L2 + 1) else (pw, L2))"

section \<open>The one-dimensional transform \<^verbatim>\<open>FHT\<close>\<close>

text \<open>\<^verbatim>\<open>revbin_upd\<close>: \<^verbatim>\<open>while (!((r ^= h) & h)) h >>= 1; return r;\<close>. With \<open>h = 0\<close> the
  loop of the source never ends.\<close>

partial_function (option) revbin_upd :: "nat \<Rightarrow> nat \<Rightarrow> nat option" where
  "revbin_upd r h =
     (let r' = r XOR h in
      if r' AND h = 0 then revbin_upd r' (drop_bit 1 h) else Some r')"

text \<open>The bit-reversal loop \<^verbatim>\<open>for (i = 1; i < (len - 1); i++)\<close>. The argument \<open>data\<close> is
  the offset of the pointer \<^verbatim>\<open>data\<close> in the allocation \<open>buf\<close>.\<close>

partial_function (option) FHT_bitrev ::
  "real list \<Rightarrow> nat \<Rightarrow> nat \<Rightarrow> nat \<Rightarrow> nat \<Rightarrow> nat \<Rightarrow> real list option" where
  "FHT_bitrev buf data len Nh i j =
     (if i < len - 1 then do {
        j' \<leftarrow> revbin_upd j Nh;
        buf' \<leftarrow> (if j' > i then do {
                   t1 \<leftarrow> rd buf (data + i);
                   dj \<leftarrow> rd buf (data + j');
                   b1 \<leftarrow> wr buf (data + i) dj;
                   wr b1 (data + j') t1
                 } else Some buf);
        FHT_bitrev buf' data len Nh (i + 1) j'
      } else Some buf)"

text \<open>The loops \<^verbatim>\<open>for (k = 0; k < len; k += istep)\<close> and
  \<^verbatim>\<open>for (k = n2; k < len; k += istep)\<close> of a stage have the same body; \<open>data_n\<close> is the
  offset of \<^verbatim>\<open>&data[n]\<close>.\<close>

partial_function (option) FHT_pass ::
  "real list \<Rightarrow> nat \<Rightarrow> nat \<Rightarrow> nat \<Rightarrow> nat \<Rightarrow> nat \<Rightarrow> real list option" where
  "FHT_pass buf data data_n len istep k =
     (if k < len then do {
        t1 \<leftarrow> rd buf (data_n + k);
        dk \<leftarrow> rd buf (data + k);
        b1 \<leftarrow> wr buf (data_n + k) (dk - t1);
        dk' \<leftarrow> rd b1 (data + k);
        b2 \<leftarrow> wr b1 (data + k) (dk' + t1);
        FHT_pass b2 data data_n len istep (k + istep)
      } else Some buf)"

text \<open>The innermost loop \<^verbatim>\<open>for (k = bl; k < len; k += istep)\<close> of the rotation part.\<close>

partial_function (option) FHT_rot_inner ::
  "real list \<Rightarrow> nat \<Rightarrow> nat \<Rightarrow> nat \<Rightarrow> nat \<Rightarrow> real \<Rightarrow> real \<Rightarrow> nat \<Rightarrow> nat \<Rightarrow> nat
     \<Rightarrow> real list option" where
  "FHT_rot_inner buf data data_n data_bd data_nbd fc fs len istep k =
     (if k < len then do {
        x \<leftarrow> rd buf (data_n + k);
        y \<leftarrow> rd buf (data_nbd + k);
        let t1 = fc * x + fs * y;
        let t2 = fs * x - fc * y;
        dk \<leftarrow> rd buf (data + k);
        b1 \<leftarrow> wr buf (data_n + k) (dk - t1);
        dbk \<leftarrow> rd b1 (data_bd + k);
        b2 \<leftarrow> wr b1 (data_nbd + k) (dbk - t2);
        dk' \<leftarrow> rd b2 (data + k);
        b3 \<leftarrow> wr b2 (data + k) (dk' + t1);
        dbk' \<leftarrow> rd b3 (data_bd + k);
        b4 \<leftarrow> wr b3 (data_bd + k) (dbk' + t2);
        FHT_rot_inner b4 data data_n data_bd data_nbd fc fs len istep (k + istep)
      } else Some buf)"

text \<open>The loop \<^verbatim>\<open>for (bl = 1; bl < n2; bl++)\<close> with the recurrence of the rotation
  factors.\<close>

partial_function (option) FHT_rot ::
  "real list \<Rightarrow> nat \<Rightarrow> nat \<Rightarrow> nat \<Rightarrow> nat \<Rightarrow> nat \<Rightarrow> real \<Rightarrow> real \<Rightarrow> real \<Rightarrow> real
     \<Rightarrow> nat \<Rightarrow> nat \<Rightarrow> real list option" where
  "FHT_rot buf data data_n len istep n2 fc fs dc ds bd bl =
     (if bl < n2 then do {
        b1 \<leftarrow> FHT_rot_inner buf data data_n (data + bd) (data_n + bd) fc fs len istep bl;
        let tt = fc * dc - fs * ds;
        let fs' = fs * dc + fc * ds;
        FHT_rot b1 data data_n len istep n2 tt fs' dc ds (bd - 2) (bl + 1)
      } else Some buf)"

text \<open>The body of \<^verbatim>\<open>do { ... } while (n < len);\<close>.\<close>

partial_function (option) FHT_stages ::
  "real list \<Rightarrow> nat \<Rightarrow> nat \<Rightarrow> nat \<Rightarrow> real \<Rightarrow> real list option" where
  "FHT_stages buf data len n a = do {
     let data_n = data + n;
     let istep = push_bit 1 n;
     b1 \<leftarrow> FHT_pass buf data data_n len istep 0;
     let n2 = drop_bit 1 n;
     b2 \<leftarrow> (if n > 2 then
              (let fc = cos a; fs = sqrt (1 - fc * fc) in
               FHT_rot b1 data data_n len istep n2 fc fs fc fs (n - 2) 1)
            else Some b1);
     b3 \<leftarrow> (if n > 1 then FHT_pass b2 data data_n len istep n2 else Some b2);
     if istep < len then FHT_stages b3 data len istep (a * 0.5) else Some b3
   }"

text \<open>The scaling loop of the inverse transform.\<close>

function FHT_scale :: "real list \<Rightarrow> nat \<Rightarrow> nat \<Rightarrow> real \<Rightarrow> nat \<Rightarrow> real list option" where
  "FHT_scale buf data len sc k =
     (if k < len then do {
        dk \<leftarrow> rd buf (data + k);
        b1 \<leftarrow> wr buf (data + k) (dk * sc);
        FHT_scale b1 data len sc (k + 1)
      } else Some buf)"
  by pat_completeness auto
termination
  by (relation "measure (\<lambda>(buf, data, len, sc, k). len - k)") auto

definition FHT :: "real list \<Rightarrow> nat \<Rightarrow> nat \<Rightarrow> nat \<Rightarrow> real list option" where
  "FHT buf data M inverse_flag = do {
     let len = push_bit M 1;
     let Nh = drop_bit 1 len;
     b1 \<leftarrow> FHT_bitrev buf data len Nh 1 0;
     b2 \<leftarrow> FHT_stages b1 data len 1 pi;
     if inverse_flag \<noteq> 0 then FHT_scale b2 data len (1 / real len) 0 else Some b2
   }"


section \<open>Loops with unit step\<close>

text \<open>\<^verbatim>\<open>for (i = i0; i < n; i++) body\<close> on a state \<open>s\<close>; a \<^verbatim>\<open>continue\<close> is a body that
  returns its state.\<close>

function for_loop :: "nat \<Rightarrow> nat \<Rightarrow> (nat \<Rightarrow> 's \<Rightarrow> 's option) \<Rightarrow> 's \<Rightarrow> 's option" where
  "for_loop i n body s =
     (if i < n then do { s' \<leftarrow> body i s; for_loop (i + 1) n body s' } else Some s)"
  by pat_completeness auto
termination
  by (relation "measure (\<lambda>(i, n, body, s). n - i)") auto

text \<open>The macro \<^verbatim>\<open>SWAP(type, a, b)\<close> on two cells of one array.\<close>

definition swap_at :: "'a list \<Rightarrow> nat \<Rightarrow> nat \<Rightarrow> 'a list option" where
  "swap_at buf p q = do {
     sw_ap \<leftarrow> rd buf p;
     v \<leftarrow> rd buf q;
     b1 \<leftarrow> wr buf p v;
     wr b1 q sw_ap
   }"

text \<open>An \<^verbatim>\<open>unsigned int\<close> decrement; a decrement of zero is reported.\<close>

definition udec :: "nat \<Rightarrow> nat option" where
  "udec n = (if n = 0 then None else Some (n - 1))"

section \<open>The two-dimensional transform \<^verbatim>\<open>FHT2D\<close>\<close>

subsection \<open>Transposition\<close>

text \<open>Square case: \<^verbatim>\<open>for (j = 0; j < Ny; j++) for (i = j + 1; i < Nx; i++)\<close>.\<close>

definition transpose_square :: "'a list \<Rightarrow> nat \<Rightarrow> nat \<Rightarrow> nat \<Rightarrow> 'a list option" where
  "transpose_square buf data Mx My =
     (let Nx = push_bit Mx (1::nat); Ny = push_bit My (1::nat) in
      for_loop 0 Ny (\<lambda>j b.
        for_loop (j + 1) Nx (\<lambda>i b.
          let op = i + push_bit Mx j; np = j + push_bit My i in
          swap_at b (data + op) (data + np)) b) buf)"

text \<open>The macro \<^verbatim>\<open>PRED(k) (((k & Nym) << Mx) + (k >> My))\<close>.\<close>

definition PRED :: "nat \<Rightarrow> nat \<Rightarrow> nat \<Rightarrow> nat \<Rightarrow> nat" where
  "PRED Nym Mx My k = push_bit Mx (k AND Nym) + drop_bit My k"

text \<open>\<^verbatim>\<open>for (j = PRED(i); j > i; j = PRED(j)) { }\<close>; the argument \<open>j\<close> is the current
  value of \<^verbatim>\<open>j\<close>, the result its value after the loop.\<close>

partial_function (option) transpose_seek :: "nat \<Rightarrow> nat \<Rightarrow> nat \<Rightarrow> nat \<Rightarrow> nat \<Rightarrow> nat option" where
  "transpose_seek Nym Mx My i j =
     (if j > i then transpose_seek Nym Mx My i (PRED Nym Mx My j) else Some j)"

text \<open>\<^verbatim>\<open>for (k = i, j = PRED(i); j != i; k = j, j = PRED(j), stm--) SWAP(data[j], data[k])\<close>.\<close>

partial_function (option) transpose_cycle ::
  "'a list \<Rightarrow> nat \<Rightarrow> nat \<Rightarrow> nat \<Rightarrow> nat \<Rightarrow> nat \<Rightarrow> nat \<Rightarrow> nat \<Rightarrow> nat \<Rightarrow> ('a list \<times> nat) option" where
  "transpose_cycle buf data Nym Mx My i k j stm =
     (if j \<noteq> i then do {
        b1 \<leftarrow> swap_at buf (data + j) (data + k);
        stm' \<leftarrow> udec stm;
        transpose_cycle b1 data Nym Mx My i j (PRED Nym Mx My j) stm'
      } else Some (buf, stm))"

text \<open>Rectangular case: \<^verbatim>\<open>for (i = 0; stm > 0; i++)\<close>.\<close>

partial_function (option) transpose_rect ::
  "'a list \<Rightarrow> nat \<Rightarrow> nat \<Rightarrow> nat \<Rightarrow> nat \<Rightarrow> nat \<Rightarrow> nat \<Rightarrow> 'a list option" where
  "transpose_rect buf data Nym Mx My i stm =
     (if stm > 0 then do {
        j \<leftarrow> transpose_seek Nym Mx My i (PRED Nym Mx My i);
        if j < i then transpose_rect buf data Nym Mx My (i + 1) stm
        else do {
          (b1, stm1) \<leftarrow> transpose_cycle buf data Nym Mx My i i (PRED Nym Mx My i) stm;
          stm2 \<leftarrow> udec stm1;
          transpose_rect b1 data Nym Mx My (i + 1) stm2
        }
      } else Some buf)"

text \<open>The block \<^verbatim>\<open>/* Transpose data. */\<close> of \<^verbatim>\<open>FHT2D\<close>.\<close>

definition FHT2D_transpose :: "'a list \<Rightarrow> nat \<Rightarrow> nat \<Rightarrow> nat \<Rightarrow> 'a list option" where
  "FHT2D_transpose buf data Mx My =
     (let Nx = push_bit Mx (1::nat); Ny = push_bit My (1::nat) in
      if Nx = Ny then transpose_square buf data Mx My
      else (let Nym = Ny - 1; stm = push_bit (Mx + My) (1::nat) in
            transpose_rect buf data Nym Mx My 0 stm))"

subsection \<open>Rows, columns and the final pass\<close>

text \<open>\<^verbatim>\<open>for (j = 0; j < maxy; j++) FHT(&data[Nx * j], Mx, inverse);\<close>\<close>

definition FHT2D_rows :: "real list \<Rightarrow> nat \<Rightarrow> nat \<Rightarrow> nat \<Rightarrow> nat \<Rightarrow> nat \<Rightarrow> real list option" where
  "FHT2D_rows buf data Nx Mx maxy inverse_flag =
     for_loop 0 maxy (\<lambda>j b. FHT b (data + Nx * j) Mx inverse_flag) buf"

text \<open>\<^verbatim>\<open>/* Finalize. */\<close>, with \<open>Nx\<close>, \<open>Ny\<close>, \<open>Mx\<close> the values after the two \<^verbatim>\<open>SWAP\<close>s.\<close>

definition FHT2D_finalize :: "real list \<Rightarrow> nat \<Rightarrow> nat \<Rightarrow> nat \<Rightarrow> nat \<Rightarrow> real list option" where
  "FHT2D_finalize buf data Nx Ny Mx =
     for_loop 0 (drop_bit 1 Ny + 1) (\<lambda>j b.
       let jm = (Ny - j) AND (Ny - 1); ji = push_bit Mx j; jmi = push_bit Mx jm in
       for_loop 0 (drop_bit 1 Nx + 1) (\<lambda>i b. do {
         let im = (Nx - i) AND (Nx - 1);
         A \<leftarrow> rd b (data + (ji + i));
         B \<leftarrow> rd b (data + (jmi + i));
         C \<leftarrow> rd b (data + (ji + im));
         D \<leftarrow> rd b (data + (jmi + im));
         let E = 0.5 * ((A + D) - (B + C));
         b1 \<leftarrow> wr b (data + (ji + i)) (A - E);
         b2 \<leftarrow> wr b1 (data + (jmi + i)) (B + E);
         b3 \<leftarrow> wr b2 (data + (ji + im)) (C + E);
         wr b3 (data + (jmi + im)) (D - E)
       }) b) buf"

definition FHT2D :: "real list \<Rightarrow> nat \<Rightarrow> nat \<Rightarrow> nat \<Rightarrow> nat \<Rightarrow> nat \<Rightarrow> real list option" where
  "FHT2D buf data Mx My nzp inverse_flag = do {
     let Nx = push_bit Mx (1::nat);
     let Ny = push_bit My (1::nat);
     let maxy = (if inverse_flag \<noteq> 0 then Ny else nzp);
     b1 \<leftarrow> FHT2D_rows buf data Nx Mx maxy inverse_flag;
     b2 \<leftarrow> FHT2D_transpose b1 data Mx My;
     b3 \<leftarrow> FHT2D_rows b2 data Ny My Nx inverse_flag;
     FHT2D_finalize b3 data Ny Nx My
   }"

section \<open>The spectral product \<^verbatim>\<open>fht_convolve\<close>\<close>

text \<open>\<^verbatim>\<open>d1[p] *= d2[p]\<close>; \<open>buf1\<close> with the offset \<open>d1\<close> is the array written, \<open>buf2\<close> with
  the offset \<open>d2\<close> the constant one.\<close>

definition fht_corner :: "real list \<Rightarrow> nat \<Rightarrow> real list \<Rightarrow> nat \<Rightarrow> nat \<Rightarrow> real list option" where
  "fht_corner buf1 d1 buf2 d2 p = do {
     x \<leftarrow> rd buf1 (d1 + p);
     y \<leftarrow> rd buf2 (d2 + p);
     wr buf1 (d1 + p) (x * y)
   }"

text \<open>The four statements
  \<^verbatim>\<open>a = d1[p] * d2[p] - d1[q] * d2[q]; b = d1[q] * d2[p] + d1[p] * d2[q];\<close>
  \<^verbatim>\<open>d1[p] = (b + a) * 0.5; d1[q] = (b - a) * 0.5;\<close>
  that the source repeats for six pairs of positions.\<close>

definition fht_pair :: "real list \<Rightarrow> nat \<Rightarrow> real list \<Rightarrow> nat \<Rightarrow> nat \<Rightarrow> nat \<Rightarrow> real list option" where
  "fht_pair buf1 d1 buf2 d2 p q = do {
     x1p \<leftarrow> rd buf1 (d1 + p);
     x2p \<leftarrow> rd buf2 (d2 + p);
     x1q \<leftarrow> rd buf1 (d1 + q);
     x2q \<leftarrow> rd buf2 (d2 + q);
     let a = x1p * x2p - x1q * x2q;
     let b = x1q * x2p + x1p * x2q;
     b1 \<leftarrow> wr buf1 (d1 + p) ((b + a) * 0.5);
     wr b1 (d1 + q) ((b - a) * 0.5)
   }"

text \<open>With \<open>M = 0\<close> or \<open>N = 0\<close> the source shifts by \<^verbatim>\<open>(unsigned)(0 - 1)\<close>, which is
  undefined.\<close>

definition fht_convolve :: "real list \<Rightarrow> nat \<Rightarrow> real list \<Rightarrow> nat \<Rightarrow> nat \<Rightarrow> nat \<Rightarrow> real list option" where
  "fht_convolve buf1 d1 buf2 d2 M N =
     (if M = 0 \<or> N = 0 then None else do {
        let m = push_bit M (1::nat);
        let n = push_bit N (1::nat);
        let m2 = push_bit (M - 1) (1::nat);
        let n2 = push_bit (N - 1) (1::nat);
        let mn2 = push_bit (N - 1) m;
        b \<leftarrow> fht_corner buf1 d1 buf2 d2 0;
        b \<leftarrow> fht_corner b d1 buf2 d2 mn2;
        b \<leftarrow> fht_corner b d1 buf2 d2 m2;
        b \<leftarrow> fht_corner b d1 buf2 d2 (m2 + mn2);
        b \<leftarrow> for_loop 1 m2 (\<lambda>i b. do {
               let k = m - i;
               b \<leftarrow> fht_pair b d1 buf2 d2 i k;
               fht_pair b d1 buf2 d2 (i + mn2) (k + mn2)
             }) b;
        b \<leftarrow> for_loop 1 n2 (\<lambda>j b. do {
               let L = n - j;
               let mj = push_bit M j;
               let mL = push_bit M L;
               b \<leftarrow> fht_pair b d1 buf2 d2 mj mL;
               fht_pair b d1 buf2 d2 (m2 + mj) (m2 + mL)
             }) b;
        for_loop 1 m2 (\<lambda>i b.
          let k = m - i in
          for_loop 1 n2 (\<lambda>j b. do {
            let L = n - j;
            let mj = push_bit M j;
            let mL = push_bit M L;
            b \<leftarrow> fht_pair b d1 buf2 d2 (i + mj) (k + mL);
            fht_pair b d1 buf2 d2 (i + mL) (k + mj)
          }) b) b
      })"

section \<open>The block convolution \<^verbatim>\<open>convolve\<close>\<close>

text \<open>The part of \<^verbatim>\<open>MemoryBuffer\<close> that \<^verbatim>\<open>convolve\<close> uses: the two dimensions and the
  raw buffer.\<close>

record MemoryBuffer =
  get_width :: nat
  get_height :: nat
  get_buffer :: "real list"

text \<open>Modelled from the spec: the constant \<^verbatim>\<open>COM_DATA_TYPE_COLOR_CHANNELS\<close> and the pixel type
  \<^verbatim>\<open>fRGB\<close> are declared in headers that are not among the sources. The spec describes the
  raw buffer as interleaved, row-major and channel-fastest, with RGBA pixels; a pixel is four
  samples and \<^verbatim>\<open>colp[x][ch]\<close> with \<^verbatim>\<open>colp = (fRGB *)&buffer[y * width * 4]\<close> is the cell
  \<open>y * width * 4 + x * 4 + ch\<close>.\<close>

definition COM_DATA_TYPE_COLOR_CHANNELS :: nat where
  "COM_DATA_TYPE_COLOR_CHANNELS = 4"

definition px_index :: "nat \<Rightarrow> nat \<Rightarrow> nat \<Rightarrow> nat \<Rightarrow> nat" where
  "px_index w x y ch = y * w * COM_DATA_TYPE_COLOR_CHANNELS + x * 4 + ch"

text \<open>Accesses to the pixel \<open>(x, y)\<close> of an image of \<open>w\<close> by \<open>h\<close> pixels, with signed
  coordinates as in the source. On top of the check of the allocation they report a
  coordinate outside of the image.\<close>

definition px_ok :: "nat \<Rightarrow> nat \<Rightarrow> int \<Rightarrow> int \<Rightarrow> bool" where
  "px_ok w h x y \<longleftrightarrow> 0 \<le> x \<and> x < int w \<and> 0 \<le> y \<and> y < int h"

definition px_rd :: "real list \<Rightarrow> nat \<Rightarrow> nat \<Rightarrow> int \<Rightarrow> int \<Rightarrow> nat \<Rightarrow> real option" where
  "px_rd buf w h x y ch =
     (if px_ok w h x y then rd buf (px_index w (nat x) (nat y) ch) else None)"

definition px_wr :: "real list \<Rightarrow> nat \<Rightarrow> nat \<Rightarrow> int \<Rightarrow> int \<Rightarrow> nat \<Rightarrow> real \<Rightarrow> real list option" where
  "px_wr buf w h x y ch v =
     (if px_ok w h x y then wr buf (px_index w (nat x) (nat y) ch) v else None)"

text \<open>\<^verbatim>\<open>memset(buf, 0, n * sizeof(float))\<close> and \<^verbatim>\<open>memcpy(dst, src, n * sizeof(float))\<close>.\<close>

definition memset_zero :: "real list \<Rightarrow> nat \<Rightarrow> real list option" where
  "memset_zero buf n = (if n \<le> length buf then Some (replicate n 0 @ drop n buf) else None)"

definition memcpy_buf :: "real list \<Rightarrow> real list \<Rightarrow> nat \<Rightarrow> real list option" where
  "memcpy_buf dst src n =
     (if n \<le> length dst \<and> n \<le> length src then Some (take n src @ drop n dst) else None)"

text \<open>Lines 263 to 267: \<^verbatim>\<open>w2 = 2 * kernel_width - 1; w2 = next_pow2(w2, &log2_w);\<close>, the same
  for the height.\<close>

definition conv_pow2_size :: "32 word \<Rightarrow> 32 word \<times> 32 word" where
  "conv_pow2_size kernel_dim = (let w2 = 2 * kernel_dim - 1 in next_pow2 w2)"

subsection \<open>Normalisation of the kernel\<close>

text \<open>The first pair of loops: \<^verbatim>\<open>add_v3_v3(wt, colp[x])\<close> adds the first three samples of the
  pixel to \<^verbatim>\<open>wt\<close>.\<close>

definition kernel_weights :: "real list \<Rightarrow> nat \<Rightarrow> nat \<Rightarrow> (real \<times> real \<times> real) option" where
  "kernel_weights kernel_buffer kernel_width kernel_height =
     for_loop 0 kernel_height (\<lambda>y wt.
       for_loop 0 kernel_width (\<lambda>x (wt0, wt1, wt2). do {
         c0 \<leftarrow> rd kernel_buffer (px_index kernel_width x y 0);
         c1 \<leftarrow> rd kernel_buffer (px_index kernel_width x y 1);
         c2 \<leftarrow> rd kernel_buffer (px_index kernel_width x y 2);
         Some (wt0 + c0, wt1 + c1, wt2 + c2)
       }) wt) (0, 0, 0)"

text \<open>\<^verbatim>\<open>if (wt[c] != 0.0f) wt[c] = 1.0f / wt[c];\<close>\<close>

definition weight_recip :: "real \<Rightarrow> real" where
  "weight_recip wt = (if wt \<noteq> 0 then 1 / wt else wt)"

text \<open>The second pair of loops: \<^verbatim>\<open>mul_v3_v3(colp[x], wt)\<close> multiplies the first three samples
  of the pixel, in place, by the entries of \<^verbatim>\<open>wt\<close>.\<close>

definition kernel_scale :: "real list \<Rightarrow> nat \<Rightarrow> nat \<Rightarrow> real \<times> real \<times> real \<Rightarrow> real list option" where
  "kernel_scale kernel_buffer kernel_width kernel_height wt =
     for_loop 0 kernel_height (\<lambda>y kb.
       for_loop 0 kernel_width (\<lambda>x kb. do {
         c0 \<leftarrow> rd kb (px_index kernel_width x y 0);
         kb \<leftarrow> wr kb (px_index kernel_width x y 0) (c0 * fst wt);
         c1 \<leftarrow> rd kb (px_index kernel_width x y 1);
         kb \<leftarrow> wr kb (px_index kernel_width x y 1) (c1 * fst (snd wt));
         c2 \<leftarrow> rd kb (px_index kernel_width x y 2);
         wr kb (px_index kernel_width x y 2) (c2 * snd (snd wt))
       }) kb) kernel_buffer"

definition normalize_kernel :: "real list \<Rightarrow> nat \<Rightarrow> nat \<Rightarrow> real list option" where
  "normalize_kernel kernel_buffer kernel_width kernel_height = do {
     (wt0, wt1, wt2) \<leftarrow> kernel_weights kernel_buffer kernel_width kernel_height;
     let wt = (weight_recip wt0, weight_recip wt1, weight_recip wt2);
     kernel_scale kernel_buffer kernel_width kernel_height wt
   }"

subsection \<open>The steps of one tile and channel\<close>

text \<open>The sizes that \<^verbatim>\<open>convolve\<close> computes once.\<close>

record conv_dims =
  image_width :: nat
  image_height :: nat
  kernel_width :: nat
  kernel_height :: nat
  w2 :: nat
  h2 :: nat
  log2_w :: nat
  log2_h :: nat
  hw :: nat
  hh :: nat
  xbsz :: nat
  ybsz :: nat

text \<open>\<^verbatim>\<open>/* in2, channel ch -> data1 */\<close>; \<open>data1ch\<close> is the offset of \<^verbatim>\<open>&data1[ch * w2 * h2]\<close>.\<close>

definition load_kernel :: "conv_dims \<Rightarrow> real list \<Rightarrow> nat \<Rightarrow> real list \<Rightarrow> nat \<Rightarrow> real list option" where
  "load_kernel c data1 data1ch kernel_buffer ch =
     for_loop 0 (kernel_height c) (\<lambda>y d.
       let fp = data1ch + y * w2 c in
       for_loop 0 (kernel_width c) (\<lambda>x d. do {
         v \<leftarrow> rd kernel_buffer (px_index (kernel_width c) x y ch);
         wr d (fp + x) v
       }) d) data1"

text \<open>\<^verbatim>\<open>/* in1, channel ch -> data2 */\<close>: the \<^verbatim>\<open>memset\<close> and the copy of the tile
  \<open>(xbl, ybl)\<close>.\<close>

definition extract_tile ::
  "conv_dims \<Rightarrow> real list \<Rightarrow> real list \<Rightarrow> nat \<Rightarrow> nat \<Rightarrow> nat \<Rightarrow> real list option" where
  "extract_tile c data2 image_buffer xbl ybl ch = do {
     d \<leftarrow> memset_zero data2 (w2 c * h2 c);
     for_loop 0 (ybsz c) (\<lambda>y d.
       let yy = int (ybl * ybsz c + y) in
       if yy \<ge> int (image_height c) then Some d
       else
         let fp = y * w2 c in
         for_loop 0 (xbsz c) (\<lambda>x d.
           let xx = int (xbl * xbsz c + x) in
           if xx \<ge> int (image_width c) then Some d
           else do {
             v \<leftarrow> px_rd image_buffer (image_width c) (image_height c) xx yy ch;
             wr d (fp + x) v
           }) d) d
   }"

text \<open>\<^verbatim>\<open>/* Overlap-add result. */\<close>\<close>

definition overlap_add ::
  "conv_dims \<Rightarrow> real list \<Rightarrow> real list \<Rightarrow> nat \<Rightarrow> nat \<Rightarrow> nat \<Rightarrow> real list option" where
  "overlap_add c rdst data2 xbl ybl ch =
     for_loop 0 (h2 c) (\<lambda>y r.
       let yy = int (ybl * ybsz c + y) - int (hh c) in
       if yy < 0 \<or> yy \<ge> int (image_height c) then Some r
       else
         let fp = y * w2 c in
         for_loop 0 (w2 c) (\<lambda>x r.
           let xx = int (xbl * xbsz c + x) - int (hw c) in
           if xx < 0 \<or> xx \<ge> int (image_width c) then Some r
           else do {
             v \<leftarrow> rd data2 (fp + x);
             old \<leftarrow> px_rd r (image_width c) (image_height c) xx yy ch;
             px_wr r (image_width c) (image_height c) xx yy ch (old + v)
           }) r) rdst"

text \<open>The body of \<^verbatim>\<open>for (ch = 0; ch < 3; ch++)\<close>; the state is \<open>(rdst, data1, data2)\<close>.\<close>

definition conv_channel ::
  "conv_dims \<Rightarrow> real list \<Rightarrow> real list \<Rightarrow> nat \<Rightarrow> nat \<Rightarrow> bool \<Rightarrow> nat
     \<Rightarrow> real list \<times> real list \<times> real list \<Rightarrow> (real list \<times> real list \<times> real list) option" where
  "conv_channel c image_buffer kernel_buffer xbl ybl in2done ch s =
     (case s of (rdst, data1, data2) \<Rightarrow> do {
        let data1ch = ch * w2 c * h2 c;
        data1 \<leftarrow> (if \<not> in2done then load_kernel c data1 data1ch kernel_buffer ch
                  else Some data1);
        data2 \<leftarrow> extract_tile c data2 image_buffer xbl ybl ch;
        data1 \<leftarrow> (if \<not> in2done then FHT2D data1 data1ch (log2_w c) (log2_h c) (kernel_height c + 1) 0
                  else Some data1);
        data2 \<leftarrow> FHT2D data2 0 (log2_w c) (log2_h c) (kernel_height c + 1) 0;
        data2 \<leftarrow> fht_convolve data2 0 data1 data1ch (log2_h c) (log2_w c);
        data2 \<leftarrow> FHT2D data2 0 (log2_h c) (log2_w c) 0 1;
        rdst \<leftarrow> overlap_add c rdst data2 xbl ybl ch;
        Some (rdst, data1, data2)
      })"

text \<open>The loops over the tiles; the state is \<open>(rdst, data1, data2, in2done)\<close>.\<close>

definition conv_blocks ::
  "conv_dims \<Rightarrow> real list \<Rightarrow> real list \<Rightarrow> nat \<Rightarrow> nat
     \<Rightarrow> real list \<times> real list \<times> real list \<times> bool
     \<Rightarrow> (real list \<times> real list \<times> real list \<times> bool) option" where
  "conv_blocks c image_buffer kernel_buffer nxb nyb s0 =
     for_loop 0 nyb (\<lambda>ybl s.
       for_loop 0 nxb (\<lambda>xbl s.
         (case s of (rdst, data1, data2, in2done) \<Rightarrow> do {
            (rdst, data1, data2) \<leftarrow>
              for_loop 0 3 (conv_channel c image_buffer kernel_buffer xbl ybl in2done)
                (rdst, data1, data2);
            Some (rdst, data1, data2, True)
          })) s) s0"

subsection \<open>\<^verbatim>\<open>convolve\<close>\<close>

text \<open>The result is the content of the three arrays of the callers on return: the
  destination, the image and the kernel. The buffer \<open>rdst\<close> is allocated and cleared by
  \<^verbatim>\<open>memset\<close>, \<open>data1\<close> and \<open>data2\<close> come cleared from \<^verbatim>\<open>MEM_callocN\<close>. A tile size of
  zero (a division by zero in the source) is reported.\<close>

definition convolve ::
  "real list \<Rightarrow> MemoryBuffer \<Rightarrow> MemoryBuffer \<Rightarrow> (real list \<times> MemoryBuffer \<times> MemoryBuffer) option" where
  "convolve dst in1 in2 = do {
     let kernel_width = get_width in2;
     let kernel_height = get_height in2;
     let image_width = get_width in1;
     let image_height = get_height in1;
     let kernel_buffer = get_buffer in2;
     let image_buffer = get_buffer in1;
     let rdst = replicate (image_width * image_height * COM_DATA_TYPE_COLOR_CHANNELS) 0;
     let (w2, log2_w) = conv_pow2_size (of_nat kernel_width);
     let (h2, log2_h) = conv_pow2_size (of_nat kernel_height);
     let data1 = replicate (3 * unat w2 * unat h2) 0;
     let data2 = replicate (unat w2 * unat h2) 0;
     kernel_buffer \<leftarrow> normalize_kernel kernel_buffer kernel_width kernel_height;
     let hw = drop_bit 1 kernel_width;
     let hh = drop_bit 1 kernel_height;
     let xbsz = (unat w2 + 1) - kernel_width;
     let ybsz = (unat h2 + 1) - kernel_height;
     if xbsz = 0 \<or> ybsz = 0 then None else do {
       let nxb = image_width div xbsz + (if image_width mod xbsz \<noteq> 0 then 1 else 0);
       let nyb = image_height div ybsz + (if image_height mod ybsz \<noteq> 0 then 1 else 0);
       let c = \<lparr> image_width = image_width, image_height = image_height,
                 kernel_width = kernel_width, kernel_height = kernel_height,
                 w2 = unat w2, h2 = unat h2, log2_w = unat log2_w, log2_h = unat log2_h,
                 hw = hw, hh = hh, xbsz = xbsz, ybsz = ybsz \<rparr>;
       (rdst, data1, data2, in2done) \<leftarrow>
         conv_blocks c image_buffer kernel_buffer nxb nyb (rdst, data1, data2, False);
       dst \<leftarrow> memcpy_buf dst rdst (image_width * image_height * COM_DATA_TYPE_COLOR_CHANNELS);
       Some (dst, in1, in2 \<lparr> get_buffer := kernel_buffer \<rparr>)
     }
   }"

section \<open>Specification predicates\<close>

text \<open>\<open>r = (pw, L2)\<close> is the smallest power of two that is at least \<open>x\<close>, with its
  logarithm.\<close>

definition smallest_pow2_ge :: "nat \<Rightarrow> 32 word \<times> 32 word \<Rightarrow> bool" where
  "smallest_pow2_ge x r =
     (case r of (pw, L2) \<Rightarrow>
        unat pw = 2 ^ unat L2 \<and> x \<le> unat pw \<and> (\<forall>k. x \<le> 2 ^ k \<longrightarrow> unat pw \<le> 2 ^ k))"

text \<open>The sum of the channel \<open>c\<close> over the first \<open>n\<close> pixels of a buffer.\<close>

definition channel_sum :: "real list \<Rightarrow> nat \<Rightarrow> nat \<Rightarrow> real" where
  "channel_sum buf n c = (\<Sum>p<n. buf ! (p * 4 + c))"

text \<open>\<open>kb'\<close> is \<open>kb\<close> with the three colour samples of each of the first \<open>n\<close> pixels
  multiplied by the weight of their channel, and the fourth sample as it was.\<close>

definition kernel_normalized :: "real list \<Rightarrow> nat \<Rightarrow> real list \<Rightarrow> bool" where
  "kernel_normalized kb n kb' \<longleftrightarrow>
     length kb' = length kb \<and>
     (\<forall>p<n. \<forall>c<3. kb' ! (p * 4 + c) = kb ! (p * 4 + c) * weight_recip (channel_sum kb n c)) \<and>
     (\<forall>p<n. kb' ! (p * 4 + 3) = kb ! (p * 4 + 3))"

text \<open>The sample at position \<open>i\<close> of a kernel buffer after the multiplication by \<open>wt\<close>.\<close>

definition scaled_sample :: "real list \<Rightarrow> real \<times> real \<times> real \<Rightarrow> nat \<Rightarrow> real" where
  "scaled_sample kb wt i =
     (if i mod 4 = 0 then kb ! i * fst wt
      else if i mod 4 = 1 then kb ! i * fst (snd wt)
      else if i mod 4 = 2 then kb ! i * snd (snd wt)
      else kb ! i)"

text \<open>The sample that the tile \<open>(xbl, ybl)\<close> of the channel \<open>ch\<close> has at the position
  \<open>(x, y)\<close> of the padded buffer: the sample of the image inside of the tile and of the
  image, zero elsewhere.\<close>

definition tile_sample :: "conv_dims \<Rightarrow> real list \<Rightarrow> nat \<Rightarrow> nat \<Rightarrow> nat \<Rightarrow> nat \<Rightarrow> nat \<Rightarrow> real" where
  "tile_sample c image_buffer xbl ybl ch x y =
     (if y < ybsz c \<and> x < xbsz c \<and> ybl * ybsz c + y < image_height c \<and> xbl * xbsz c + x < image_width c
      then image_buffer ! px_index (image_width c) (xbl * xbsz c + x) (ybl * ybsz c + y) ch
      else 0)"

text \<open>The fourth sample of each of the first \<open>n\<close> pixels of a buffer is zero.\<close>

definition alpha_zero :: "real list \<Rightarrow> nat \<Rightarrow> bool" where
  "alpha_zero buf n \<longleftrightarrow> (\<forall>p<n. buf ! (p * 4 + 3) = 0)"

text \<open>The relation between the two runs of the spectral product, on \<open>(x, y)\<close> and on
  \<open>(y, x)\<close>, in a grid of \<open>m\<close> columns and \<open>n\<close> rows: at the positions \<open>P\<close> that have been
  rewritten the two buffers agree, elsewhere they still hold \<open>x\<close> and \<open>y\<close>.\<close>

definition sym_inv ::
  "real list \<Rightarrow> real list \<Rightarrow> nat \<Rightarrow> nat \<Rightarrow> (nat \<Rightarrow> nat \<Rightarrow> bool) \<Rightarrow> real list \<Rightarrow> real list \<Rightarrow> bool" where
  "sym_inv x y m n P b b' \<longleftrightarrow>
     length b = m * n \<and> length b' = m * n \<and>
     (\<forall>c<m. \<forall>r<n.
        if P c r then b ! (c + r * m) = b' ! (c + r * m)
        else b ! (c + r * m) = x ! (c + r * m) \<and> b' ! (c + r * m) = y ! (c + r * m))"

text \<open>The positions of an axis of length \<open>2 * h\<close> that the iterations \<open>1, \<dots>, k - 1\<close> of a
  loop over mirrored pairs \<open>(p, 2 * h - p)\<close> have visited.\<close>

definition paired_upto :: "nat \<Rightarrow> nat \<Rightarrow> nat \<Rightarrow> bool" where
  "paired_upto h k p \<longleftrightarrow> (1 \<le> p \<and> p < k) \<or> (2 * h - k < p \<and> p < 2 * h)"

section \<open>Properties\<close>

declare for_loop.simps [simp del]
declare FHT_scale.simps [simp del]
declare next_pow2_loop.simps [simp del]

subsection \<open>Loops\<close>

lemma for_loop_total:
  assumes "i \<le> n" and "P i s"
    and "\<And>k t. i \<le> k \<Longrightarrow> k < n \<Longrightarrow> P k t \<Longrightarrow> \<exists>t'. body k t = Some t' \<and> P (k + 1) t'"
  shows "\<exists>t. for_loop i n body s = Some t \<and> P n t"
  using assms
proof (induction "n - i" arbitrary: i s)
  case 0
  then have "i = n" by simp
  then show ?case
    using "0.prems"(2) by (subst for_loop.simps) simp
next
  case (Suc d)
  then have lt: "i < n" by simp
  from Suc.prems(3) [OF le_refl lt Suc.prems(2)]
  obtain t' where t': "body i s = Some t'" "P (i + 1) t'"
    by blast
  have "\<exists>t. for_loop (i + 1) n body t' = Some t \<and> P n t"
  proof (rule Suc.hyps(1))
    show "d = n - (i + 1)" using Suc.hyps(2) by simp
    show "i + 1 \<le> n" using lt by simp
    show "P (i + 1) t'" by (rule t'(2))
    show "\<exists>t'. body k t = Some t' \<and> P (k + 1) t'" if "i + 1 \<le> k" "k < n" "P k t" for k t
      using Suc.prems(3) [of k t] that by simp
  qed
  then show ?case
    using lt t'(1) by (subst for_loop.simps) simp
qed

lemma for_loop_partial:
  assumes "for_loop i n body s = Some t" and "i \<le> n" and "P i s"
    and "\<And>k u u'. i \<le> k \<Longrightarrow> k < n \<Longrightarrow> P k u \<Longrightarrow> body k u = Some u' \<Longrightarrow> P (k + 1) u'"
  shows "P n t"
  using assms
proof (induction "n - i" arbitrary: i s)
  case 0
  then have "i = n" by simp
  then show ?case
    using "0.prems"(1,3) by (subst (asm) for_loop.simps) simp
next
  case (Suc d)
  then have lt: "i < n" by simp
  from Suc.prems(1) lt obtain s' where s': "body i s = Some s'" "for_loop (i + 1) n body s' = Some t"
    by (subst (asm) for_loop.simps) (auto split: bind_splits)
  show ?case
  proof (rule Suc.hyps(1) [OF _ s'(2)])
    show "d = n - (i + 1)" using Suc.hyps(2) by simp
    show "i + 1 \<le> n" using lt by simp
    show "P (i + 1) s'" using Suc.prems(4) [OF le_refl lt Suc.prems(3) s'(1)] .
    show "P (k + 1) u'" if "i + 1 \<le> k" "k < n" "P k u" "body k u = Some u'" for k u u'
      using Suc.prems(4) [of k u u'] that by simp
  qed
qed

lemma for_loop_empty: "n \<le> i \<Longrightarrow> for_loop i n body s = Some s"
  by (subst for_loop.simps) simp

subsection \<open>\<^verbatim>\<open>next_pow2\<close>\<close>


lemma next_pow2_loop_log:
  "x \<noteq> 0 \<Longrightarrow> \<exists>L. next_pow2_loop x acc = acc + of_nat L \<and> 2 ^ L \<le> unat x \<and> unat x < 2 ^ (L + 1)"
proof (induction "unat x" arbitrary: x acc rule: less_induct)
  case less
  define x' where "x' = drop_bit 1 x"
  have ux': "unat x' = unat x div 2"
    by (simp add: x'_def drop_bit_eq_div unat_div)
  have xpos: "0 < unat x"
    using less.prems by (simp add: unat_gt_0)
  show ?case
  proof (cases "x' = 0")
    case True
    then have "unat x = 1"
      using ux' xpos by (simp add: unat_eq_0) 
    moreover have "next_pow2_loop x acc = acc"
      using True by (subst next_pow2_loop.simps) (simp add: x'_def Let_def)
    ultimately show ?thesis
      by (intro exI [of _ 0]) simp
  next
    case False
    have lt: "unat x' < unat x"
      using ux' xpos by linarith
    from less.hyps [OF lt False, of "acc + 1"]
    obtain L where L: "next_pow2_loop x' (acc + 1) = acc + 1 + of_nat L"
      "2 ^ L \<le> unat x'" "unat x' < 2 ^ (L + 1)"
      by blast
    have "next_pow2_loop x acc = next_pow2_loop x' (acc + 1)"
      using False by (subst next_pow2_loop.simps) (simp add: x'_def Let_def)
    then have "next_pow2_loop x acc = acc + of_nat (Suc L)"
      using L(1) by simp
    moreover have "2 ^ Suc L \<le> unat x"
      using L(2) ux' by simp
    moreover have "unat x < 2 ^ (Suc L + 1)"
      using L(3) ux' by simp
    ultimately show ?thesis
      by blast
  qed
qed

lemma bit_top:
  fixes x :: "32 word"
  assumes "2 ^ L \<le> unat x" "unat x < 2 ^ (L + 1)"
  shows "bit x L"
proof -
  have "unat x div 2 ^ L = 1"
    using assms by (simp add: div_nat_eqI)
  then have "bit (unat x) L"
    by (simp add: bit_iff_odd)
  then show ?thesis
    by (simp add: bit_unsigned_iff)
qed

lemma pow2_and_pred:
  fixes x :: "32 word"
  assumes "2 ^ L \<le> unat x" "unat x < 2 ^ (L + 1)"
  shows "x AND (x - 1) = 0 \<longleftrightarrow> unat x = 2 ^ L"
proof
  assume eq: "unat x = 2 ^ L"
  have "unat x < 2 ^ 32" using unsigned_less [of x, where ?'a = nat] by simp
  then have "(2::nat) ^ L < 2 ^ 32" using assms(1) by linarith
  then have L: "L < 32" by (rule power_less_imp_less_exp [rotated]) simp
  have "x = of_nat (unat x)" by simp
  also have "\<dots> = 2 ^ L" unfolding eq by simp
  finally have "x = 2 ^ L" .
  then have "x AND (x - 1) = 2 ^ L AND mask L"
    by (simp add: mask_eq_decr_exp)
  also have "\<dots> = (0 :: 32 word)"
    by (rule bit_word_eqI) (auto simp add: bit_simps)
  finally show "x AND (x - 1) = 0" .
next
  assume z: "x AND (x - 1) = 0"
  show "unat x = 2 ^ L"
  proof (rule ccontr)
    assume "unat x \<noteq> 2 ^ L"
    then have "2 ^ L < unat x" using assms by simp
    then have "2 ^ L \<le> unat (x - 1)" "unat (x - 1) < 2 ^ (L + 1)"
      using assms(2) by (simp_all add: unat_sub_if_size)
    then have "bit (x - 1) L" by (rule bit_top)
    moreover have "bit x L" using assms by (rule bit_top)
    ultimately have "bit (x AND (x - 1)) L" by (simp add: bit_and_iff)
    then show False using z by simp
  qed
qed

lemma unat_pow2:
  assumes "L < 32"
  shows "unat (2 ^ L :: 32 word) = 2 ^ L"
proof -
  have "(2::nat) ^ L < 2 ^ 32"
    using assms by (intro power_strict_increasing) simp_all
  then show ?thesis
    using unat_of_nat [of "2 ^ L", where ?'a = 32] by simp
qed

lemma next_pow2_correct:
  assumes "0 < x" "x \<le> 2 ^ 31"
  shows "smallest_pow2_ge (unat x) (next_pow2 x)"
proof -
  have x0: "x \<noteq> 0" using assms(1) by auto
  from next_pow2_loop_log [OF x0, of 0]
  obtain L where L: "next_pow2_loop x 0 = of_nat L" "2 ^ L \<le> unat x" "unat x < 2 ^ (L + 1)"
    by auto
  have ux: "unat x \<le> 2 ^ 31"
    using assms(2) by (simp add: word_le_nat_alt)
  have "(2::nat) ^ L \<le> 2 ^ 31" using L(2) ux by linarith
  then have L31: "L \<le> 31" by (rule power_le_imp_le_exp [rotated]) simp
  have uL: "unat (of_nat L :: 32 word) = L"
    using L31 by (simp add: unat_of_nat)
  show ?thesis
  proof (cases "x AND (x - 1) = 0")
    case True
    then have eq: "unat x = 2 ^ L"
      using pow2_and_pred [OF L(2,3)] by simp
    have "unat (push_bit L 1 :: 32 word) = 2 ^ L"
      using L31 by (simp add: unat_pow2)
    moreover have "next_pow2 x = (push_bit L 1, of_nat L)"
      unfolding next_pow2_def L(1) Let_def uL using True by (simp only: if_False simp_thms)
    ultimately show ?thesis
      unfolding smallest_pow2_ge_def eq by (simp only: prod.case uL) simp
  next
    case False
    then have "unat x \<noteq> 2 ^ L"
      using pow2_and_pred [OF L(2,3)] by simp
    then have lt: "2 ^ L < unat x" using L(2) by simp
    then have "(2::nat) ^ L < 2 ^ 31" using ux by linarith
    then have L30: "L < 31" by (rule power_less_imp_less_exp [rotated]) simp
    have "of_nat L + 1 = (of_nat (Suc L) :: 32 word)"
      by simp
    moreover have "unat (of_nat (Suc L) :: 32 word) = Suc L"
      using L30 unat_of_nat [of "Suc L", where ?'a = 32] by simp
    ultimately have uL1: "unat (of_nat L + 1 :: 32 word) = L + 1"
      by (simp only: Suc_eq_plus1)
    have "unat (2 ^ (L + 1) :: 32 word) = 2 ^ (L + 1)"
      using L30 by (intro unat_pow2) simp
    moreover have "push_bit 1 (push_bit L 1) = (2 ^ (L + 1) :: 32 word)"
      by (simp add: push_bit_eq_mult)
    ultimately have pw: "unat (push_bit 1 (push_bit L 1) :: 32 word) = 2 ^ (L + 1)"
      by (simp only:)
    have small: "unat x \<le> 2 ^ k \<Longrightarrow> (2::nat) ^ (L + 1) \<le> 2 ^ k" for k
    proof -
      assume "unat x \<le> 2 ^ k"
      then have "(2::nat) ^ L < 2 ^ k" using lt by linarith
      then have "L < k" by (rule power_less_imp_less_exp [rotated]) simp
      then show ?thesis by (intro power_increasing) simp_all
    qed
    have "next_pow2 x = (push_bit 1 (push_bit L 1), of_nat L + 1)"
      unfolding next_pow2_def L(1) Let_def uL using False by (simp only: if_True simp_thms)
    then show ?thesis
      unfolding smallest_pow2_ge_def using L(3) small by (simp only: prod.case uL1 pw) simp
  qed
qed

text \<open>C7, amended: for every \<open>x\<close> with \<open>1 \<le> x \<le> 2^31\<close>, \<^verbatim>\<open>next_pow2\<close> returns the smallest
  power of two that is at least \<open>x\<close> and stores its logarithm; consequently, for a kernel
  dimension between 1 and \<open>2^30\<close>, \<^verbatim>\<open>convolve\<close> computes the smallest power of two that is
  at least \<open>2 * kernel_dim - 1\<close>, with its logarithm.\<close>

theorem next_pow2_smallest:
  assumes "0 < x" "x \<le> 2 ^ 31" "0 < kernel_dim" "kernel_dim \<le> 2 ^ 30"
  shows "smallest_pow2_ge (unat x) (next_pow2 x) \<and>
         smallest_pow2_ge (2 * unat kernel_dim - 1) (conv_pow2_size kernel_dim)"
proof
  show "smallest_pow2_ge (unat x) (next_pow2 x)"
    using assms(1,2) by (rule next_pow2_correct)
next
  have k: "0 < unat kernel_dim" "unat kernel_dim \<le> 2 ^ 30"
    using assms(3,4) by (simp_all add: word_le_nat_alt word_less_nat_alt)
  then have u: "unat (2 * kernel_dim - 1) = 2 * unat kernel_dim - 1"
    by (simp add: unat_sub_if_size unat_word_ariths word_le_nat_alt)
  have "0 < 2 * kernel_dim - 1" "2 * kernel_dim - 1 \<le> 2 ^ 31"
    using k by (simp_all add: word_le_nat_alt word_less_nat_alt u)
  then have "smallest_pow2_ge (unat (2 * kernel_dim - 1)) (next_pow2 (2 * kernel_dim - 1))"
    by (rule next_pow2_correct)
  then show "smallest_pow2_ge (2 * unat kernel_dim - 1) (conv_pow2_size kernel_dim)"
    by (simp add: conv_pow2_size_def u)
qed

lemma next_pow2_5: "next_pow2 5 = (8, 3)"
  by (simp add: next_pow2_def next_pow2_loop.simps Let_def)

theorem next_pow2_smallest_witness:
  "smallest_pow2_ge 5 (next_pow2 5) \<and> next_pow2 5 = (8, 3) \<and>
   smallest_pow2_ge 5 (conv_pow2_size 3) \<and> conv_pow2_size 3 = (8, 3)"
  using next_pow2_smallest [of 5 3]
  by (simp add: conv_pow2_size_def next_pow2_5)

text \<open>C7 as stated fails beyond \<open>2^31\<close>: the 32-bit result wraps to zero.\<close>

theorem next_pow2_overflow:
  "next_pow2 0x80000001 = (0, 32) \<and>
   \<not> smallest_pow2_ge (unat (0x80000001 :: 32 word)) (next_pow2 0x80000001)"
proof -
  have "next_pow2 0x80000001 = (0, 32)"
    by (simp add: next_pow2_def next_pow2_loop.simps Let_def)
  then show ?thesis
    by (simp add: smallest_pow2_ge_def)
qed


subsection \<open>\<^verbatim>\<open>FHT\<close> on two samples\<close>

text \<open>C8: for every buffer \<open>[a, b]\<close> of length 2 (\<open>M = 1\<close>) the forward transform
  produces \<open>[a + b, a - b]\<close>.\<close>

theorem FHT_length_two: "FHT [a, b] 0 1 0 = Some [a + b, a - b]"
  by (simp add: FHT_def FHT_bitrev.simps FHT_stages.simps FHT_pass.simps rd_def wr_def)

subsection \<open>Normalisation of the kernel\<close>

lemma px_index_eq: "px_index w x y c = (y * w + x) * 4 + c"
  by (simp add: px_index_def COM_DATA_TYPE_COLOR_CHANNELS_def algebra_simps)

lemma px_lt:
  fixes x y w h :: nat
  assumes "x < w" "y < h"
  shows "y * w + x < w * h"
proof -
  have "y * w + x < y * w + w" using assms(1) by simp
  also have "\<dots> = (y + 1) * w" by simp
  also have "\<dots> \<le> h * w" using assms(2) by (intro mult_le_mono1) simp
  finally show ?thesis by (simp add: mult.commute)
qed

lemma rd_Some: "i < length buf \<Longrightarrow> rd buf i = Some (buf ! i)"
  by (simp add: rd_def)

lemma wr_Some: "i < length buf \<Longrightarrow> wr buf i v = Some (buf[i := v])"
  by (simp add: wr_def)

lemma channel_sum_Suc: "channel_sum buf (Suc n) c = channel_sum buf n c + buf ! (n * 4 + c)"
  by (simp add: channel_sum_def)

lemma kernel_weights_sum:
  assumes len: "length kb = kw * kh * 4"
  shows "kernel_weights kb kw kh =
           Some (channel_sum kb (kw * kh) 0, channel_sum kb (kw * kh) 1, channel_sum kb (kw * kh) 2)"
proof -
  define S where "S n = (channel_sum kb n 0, channel_sum kb n 1, channel_sum kb n 2)" for n
  let ?inner = "\<lambda>y. \<lambda>x (wt0, wt1, wt2). do {
         c0 \<leftarrow> rd kb (px_index kw x y 0);
         c1 \<leftarrow> rd kb (px_index kw x y 1);
         c2 \<leftarrow> rd kb (px_index kw x y 2);
         Some (wt0 + c0, wt1 + c1, wt2 + c2)
       }"
  have inner: "\<exists>t'. ?inner y x t = Some t' \<and> t' = S (y * kw + (x + 1))"
    if "x < kw" "y < kh" "t = S (y * kw + x)" for x y t
  proof -
    have "y * kw + x < kw * kh" using that(1,2) by (rule px_lt)
    then have "(y * kw + x) * 4 + c < length kb" if "c < 4" for c
      using that len by simp
    then have "rd kb (px_index kw x y c) = Some (kb ! ((y * kw + x) * 4 + c))" if "c < 4" for c
      using that by (simp add: px_index_eq rd_Some)
    then show ?thesis
      using that(3) by (simp add: S_def channel_sum_Suc)
  qed
  have row: "\<exists>t'. for_loop 0 kw (?inner y) t = Some t' \<and> t' = S ((y + 1) * kw)"
    if "y < kh" "t = S (y * kw)" for y t
  proof -
    have "\<exists>t'. for_loop 0 kw (?inner y) t = Some t' \<and> t' = S (y * kw + kw)"
      by (rule for_loop_total [where P = "\<lambda>x t. t = S (y * kw + x)"])
         (use that inner in auto)
    then show ?thesis by (simp add: algebra_simps)
  qed
  have "\<exists>t'. for_loop 0 kh (\<lambda>y wt. for_loop 0 kw (?inner y) wt) (0, 0, 0) = Some t' \<and> t' = S (kh * kw)"
    by (rule for_loop_total [where P = "\<lambda>y t. t = S (y * kw)"])
       (use row in \<open>auto simp: S_def channel_sum_def\<close>)
  then show ?thesis
    by (simp add: kernel_weights_def S_def mult.commute)
qed

lemma kernel_scale_result:
  assumes len: "length kb = kw * kh * 4"
  shows "\<exists>kb'. kernel_scale kb kw kh wt = Some kb' \<and> length kb' = length kb \<and>
           (\<forall>i<length kb. kb' ! i = scaled_sample kb wt i)"
proof -
  define R where "R n t \<longleftrightarrow> length t = length kb \<and>
     (\<forall>i<length kb. t ! i = (if i < n * 4 then scaled_sample kb wt i else kb ! i))" for n t
  let ?inner = "\<lambda>y. \<lambda>x kb. do {
         c0 \<leftarrow> rd kb (px_index kw x y 0);
         kb \<leftarrow> wr kb (px_index kw x y 0) (c0 * fst wt);
         c1 \<leftarrow> rd kb (px_index kw x y 1);
         kb \<leftarrow> wr kb (px_index kw x y 1) (c1 * fst (snd wt));
         c2 \<leftarrow> rd kb (px_index kw x y 2);
         wr kb (px_index kw x y 2) (c2 * snd (snd wt))
       }"
  have inner: "\<exists>t'. ?inner y x t = Some t' \<and> R (y * kw + (x + 1)) t'"
    if "x < kw" "y < kh" "R (y * kw + x) t" for x y t
  proof -
    define n where "n = y * kw + x"
    have "n < kw * kh" unfolding n_def using that(1,2) by (rule px_lt)
    then have n4: "n * 4 + 3 < length kb"
      using len by simp
    have lt: "length t = length kb" and tv: "\<And>i. i < length kb \<Longrightarrow>
        t ! i = (if i < n * 4 then scaled_sample kb wt i else kb ! i)"
      using that(3) by (simp_all add: R_def n_def)
    have px: "px_index kw x y c = n * 4 + c" for c
      by (simp add: px_index_eq n_def)
    define t' where "t' = t[n * 4 := t ! (n * 4) * fst wt, n * 4 + 1 := t ! (n * 4 + 1) * fst (snd wt),
       n * 4 + 2 := t ! (n * 4 + 2) * snd (snd wt)]"
    have run: "?inner y x t = Some t'"
      using n4 lt by (simp add: px rd_def wr_def t'_def)
    have "length t' = length kb"
      by (simp add: t'_def lt)
    moreover have "t' ! i = (if i < (n + 1) * 4 then scaled_sample kb wt i else kb ! i)"
      if i: "i < length kb" for i
    proof -
      consider "i = n * 4" | "i = n * 4 + 1" | "i = n * 4 + 2" | "i = n * 4 + 3" | "i < n * 4" | "n * 4 + 4 \<le> i"
        by linarith
      then show ?thesis
      proof cases
        case 1
        then show ?thesis using n4 lt tv [of "n * 4"]
          by (simp add: t'_def scaled_sample_def)
      next
        case 2
        then show ?thesis using n4 lt tv [of "n * 4 + 1"]
          by (simp add: t'_def scaled_sample_def mod_Suc)
      next
        case 3
        have "(n * 4 + 2) mod 4 = 2" by presburger
        then show ?thesis using 3 n4 lt tv [of "n * 4 + 2"]
          by (simp add: t'_def scaled_sample_def)
      next
        case 4
        have "(n * 4 + 3) mod 4 = 3" by presburger
        then show ?thesis using 4 n4 lt tv [of "n * 4 + 3"]
          by (simp add: t'_def scaled_sample_def)
      next
        case 5
        then show ?thesis using i lt tv [of i]
          by (simp add: t'_def)
      next
        case 6
        then show ?thesis using i lt tv [of i]
          by (simp add: t'_def)
      qed
    qed
    ultimately have "R (n + 1) t'"
      by (simp add: R_def)
    then show ?thesis
      using run by (simp add: n_def)
  qed
  have row: "\<exists>t'. for_loop 0 kw (?inner y) t = Some t' \<and> R ((y + 1) * kw) t'"
    if "y < kh" "R (y * kw) t" for y t
  proof -
    have "\<exists>t'. for_loop 0 kw (?inner y) t = Some t' \<and> R (y * kw + kw) t'"
      by (rule for_loop_total [where P = "\<lambda>x t. R (y * kw + x) t"])
         (use that inner in auto)
    then show ?thesis by (simp add: algebra_simps)
  qed
  have "\<exists>t'. for_loop 0 kh (\<lambda>y kb. for_loop 0 kw (?inner y) kb) kb = Some t' \<and> R (kh * kw) t'"
    by (rule for_loop_total [where P = "\<lambda>y t. R (y * kw) t"])
       (use row in \<open>auto simp: R_def\<close>)
  then show ?thesis
    using len by (auto simp add: kernel_scale_def R_def mult.commute)
qed

lemma channel_sum_scaled:
  assumes "\<forall>p<n. kb' ! (p * 4 + c) = kb ! (p * 4 + c) * w"
  shows "channel_sum kb' n c = channel_sum kb n c * w"
  using assms by (simp add: channel_sum_def sum_distrib_right)

text \<open>C4, amended: the normalisation multiplies, for each of the three colour channels
  independently, every kernel sample of the channel by the weight of the channel, which is
  the reciprocal of the sum of the channel when that sum is not zero; then the channel sums
  to 1. For a channel whose sum is zero no division is performed, the weight stays zero and
  every sample of the channel becomes zero. The fourth sample of a pixel is not touched.\<close>

theorem normalize_kernel_result:
  assumes len: "length kb = kw * kh * 4"
  shows "\<exists>kb'. normalize_kernel kb kw kh = Some kb' \<and> kernel_normalized kb (kw * kh) kb' \<and>
           (\<forall>c<3. channel_sum kb (kw * kh) c \<noteq> 0 \<longrightarrow> channel_sum kb' (kw * kh) c = 1) \<and>
           (\<forall>c<3. channel_sum kb (kw * kh) c = 0 \<longrightarrow> (\<forall>p<kw * kh. kb' ! (p * 4 + c) = 0))"
proof -
  define n where "n = kw * kh"
  define wt where "wt = (weight_recip (channel_sum kb n 0), weight_recip (channel_sum kb n 1),
     weight_recip (channel_sum kb n 2))"
  from kernel_scale_result [OF len, of wt]
  obtain kb' where kb': "kernel_scale kb kw kh wt = Some kb'" "length kb' = length kb"
    "\<And>i. i < length kb \<Longrightarrow> kb' ! i = scaled_sample kb wt i"
    by blast
  have run: "normalize_kernel kb kw kh = Some kb'"
    using kb'(1) by (simp add: normalize_kernel_def kernel_weights_sum [OF len] wt_def n_def)
  have sc: "kb' ! (p * 4 + c) = kb ! (p * 4 + c) * weight_recip (channel_sum kb n c)"
    if "p < n" "c < 3" for p c
  proof -
    have "p * 4 + c < length kb" using that len by (simp add: n_def)
    moreover have "(p * 4 + c) mod 4 = c" using that(2) by simp
    moreover have "c = 0 \<or> c = 1 \<or> c = 2" using that(2) by linarith
    ultimately show ?thesis
      using kb'(3) [of "p * 4 + c"] by (auto simp add: scaled_sample_def wt_def)
  qed
  have al: "kb' ! (p * 4 + 3) = kb ! (p * 4 + 3)" if "p < n" for p
  proof -
    have "p * 4 + 3 < length kb" using that len by (simp add: n_def)
    moreover have "(p * 4 + 3) mod 4 = 3" by presburger
    ultimately show ?thesis
      using kb'(3) [of "p * 4 + 3"] by (simp add: scaled_sample_def)
  qed
  have norm: "kernel_normalized kb n kb'"
    using kb'(2) sc al by (simp add: kernel_normalized_def)
  have one: "channel_sum kb' n c = 1" if "c < 3" "channel_sum kb n c \<noteq> 0" for c
  proof -
    have "channel_sum kb' n c = channel_sum kb n c * weight_recip (channel_sum kb n c)"
      using sc that(1) by (intro channel_sum_scaled) simp
    then show ?thesis using that(2) by (simp add: weight_recip_def)
  qed
  have zero: "kb' ! (p * 4 + c) = 0" if "c < 3" "channel_sum kb n c = 0" "p < n" for c p
    using sc [OF that(3,1)] that(2) by (simp add: weight_recip_def)
  show ?thesis
    using run norm one zero unfolding n_def by blast
qed

theorem normalize_kernel_result_witness:
  "\<exists>kb'. normalize_kernel [1, 1, 1, 1, 2, 3, 4, 5, 0, 0, 0, 0, 1, 0, - 4, 0] 2 2 = Some kb' \<and>
     kernel_normalized [1, 1, 1, 1, 2, 3, 4, 5, 0, 0, 0, 0, 1, 0, - 4, 0] (2 * 2) kb'"
  using normalize_kernel_result [of "[1, 1, 1, 1, 2, 3, 4, 5, 0, 0, 0, 0, 1, 0, - 4, 0]" 2 2]
  by auto

text \<open>Evaluation of the model on concrete inputs: the first action of a sequence is
  evaluated before the rest is looked at.\<close>

lemmas loop_ev = for_loop.simps rd_def wr_def Let_def

lemma bind_weak_cong: "m = m' \<Longrightarrow> Option.bind m f = Option.bind m' f"
  by simp

lemma for_loop_weak_cong: "i = i' \<Longrightarrow> n = n' \<Longrightarrow> s = s' \<Longrightarrow> for_loop i n body s = for_loop i' n' body s'"
  by simp

lemma case_prod_weak_cong: "p = p' \<Longrightarrow> case_prod f p = case_prod f p'"
  by simp

text \<open>C4 as stated fails: a channel with the samples \<open>1, -1, 0, 0\<close> has the sum zero and is
  not left unchanged, it is cleared.\<close>

theorem normalize_kernel_zero_sum:
  "normalize_kernel [1, 1, 1, 1, - 1, 1, 1, 1, 0, 1, 1, 1, 0, 1, 1, 1] 2 2
     = Some [0, 1 / 4, 1 / 4, 1, 0, 1 / 4, 1 / 4, 1, 0, 1 / 4, 1 / 4, 1, 0, 1 / 4, 1 / 4, 1] \<and>
   channel_sum [1, 1, 1, 1, - 1, 1, 1, 1, 0, 1, 1, 1, 0, 1, 1, 1] (2 * 2) 0 = 0"
proof
  show "normalize_kernel [1, 1, 1, 1, - 1, 1, 1, 1, 0, 1, 1, 1, 0, 1, 1, 1] 2 2
     = Some [0, 1 / 4, 1 / 4, 1, 0, 1 / 4, 1 / 4, 1, 0, 1 / 4, 1 / 4, 1, 0, 1 / 4, 1 / 4, 1]"
    by (simp add: normalize_kernel_def kernel_weights_def kernel_scale_def weight_recip_def
        px_index_def COM_DATA_TYPE_COLOR_CHANNELS_def loop_ev
        cong: bind_weak_cong for_loop_weak_cong case_prod_weak_cong let_weak_cong)
  show "channel_sum [1, 1, 1, 1, - 1, 1, 1, 1, 0, 1, 1, 1, 0, 1, 1, 1] (2 * 2) 0 = 0"
    by (simp add: channel_sum_def lessThan_Suc eval_nat_numeral)
qed

subsection \<open>Extraction of a tile and accumulation\<close>

lemma grid_inj:
  fixes x y x' y' w :: nat
  assumes "x < w" "x' < w"
  shows "y * w + x = y' * w + x' \<longleftrightarrow> y = y' \<and> x = x'"
proof
  assume eq: "y * w + x = y' * w + x'"
  have "(y * w + x) div w = y" "(y' * w + x') div w = y'"
    using assms by simp_all
  then have "y = y'" using eq by simp
  then show "y = y' \<and> x = x'" using eq by simp
qed simp

lemma px_index_mod:
  assumes "ch < 4"
  shows "px_index w x y ch mod 4 = ch"
proof -
  have "px_index w x y ch = ch + 4 * (y * w + x)"
    by (simp add: px_index_eq)
  then have "px_index w x y ch mod 4 = ch mod 4"
    by (simp only: mod_mult_self2)
  then show ?thesis using assms by simp
qed

lemma extract_tile_result:
  assumes img: "length image_buffer = image_width c * image_height c * 4"
    and d2: "length data2 = w2 c * h2 c"
    and bx: "xbsz c \<le> w2 c" and by': "ybsz c \<le> h2 c" and ch: "ch < 4"
  shows "\<exists>d. extract_tile c data2 image_buffer xbl ybl ch = Some d \<and> length d = w2 c * h2 c \<and>
           (\<forall>y<h2 c. \<forall>x<w2 c. d ! (y * w2 c + x) = tile_sample c image_buffer xbl ybl ch x y)"
proof -
  define T where "T = tile_sample c image_buffer xbl ybl ch"
  define Q where "Q y x d \<longleftrightarrow> length d = w2 c * h2 c \<and>
     (\<forall>y'<h2 c. \<forall>x'<w2 c. d ! (y' * w2 c + x') =
        (if y' < y \<or> (y' = y \<and> x' < x) then T x' y' else 0))" for y x d
  let ?inner = "\<lambda>y. \<lambda>x d.
           let xx = int (xbl * xbsz c + x) in
           if xx \<ge> int (image_width c) then Some d
           else do {
             v \<leftarrow> px_rd image_buffer (image_width c) (image_height c) xx (int (ybl * ybsz c + y)) ch;
             wr d (y * w2 c + x) v
           }"
  let ?row = "\<lambda>y d.
       let yy = int (ybl * ybsz c + y) in
       if yy \<ge> int (image_height c) then Some d
       else
         let fp = y * w2 c in
         for_loop 0 (xbsz c) (\<lambda>x d.
           let xx = int (xbl * xbsz c + x) in
           if xx \<ge> int (image_width c) then Some d
           else do {
             v \<leftarrow> px_rd image_buffer (image_width c) (image_height c) xx yy ch;
             wr d (fp + x) v
           }) d"
  have inner: "\<exists>d'. ?inner y x d = Some d' \<and> Q y (x + 1) d'"
    if "x < xbsz c" "y < ybsz c" "ybl * ybsz c + y < image_height c" "Q y x d" for x y d
  proof (cases "xbl * xbsz c + x < image_width c")
    case False
    then have "T x y = 0" by (simp add: T_def tile_sample_def)
    then have "Q y (x + 1) d"
      using that(4) unfolding Q_def by (auto simp: less_Suc_eq)
    then show ?thesis using False by (simp add: Let_def del: of_nat_add of_nat_mult)
  next
    case True
    define v where "v = image_buffer ! px_index (image_width c) (xbl * xbsz c + x) (ybl * ybsz c + y) ch"
    have Tv: "T x y = v"
      using that(1,2,3) True by (simp add: T_def tile_sample_def v_def)
    have "(ybl * ybsz c + y) * image_width c + (xbl * xbsz c + x) < image_width c * image_height c"
      using True that(3) by (rule px_lt)
    then have "px_index (image_width c) (xbl * xbsz c + x) (ybl * ybsz c + y) ch < length image_buffer"
      using ch img by (simp add: px_index_eq)
    then have rdv: "px_rd image_buffer (image_width c) (image_height c) (int (xbl * xbsz c + x))
        (int (ybl * ybsz c + y)) ch = Some v"
      using True that(3) by (simp add: px_rd_def px_ok_def rd_def v_def del: of_nat_add of_nat_mult)
    have xw: "x < w2 c" and yh: "y < h2 c"
      using that(1,2) bx by' by simp_all
    then have "y * w2 c + x < w2 c * h2 c" by (rule px_lt)
    then have wrv: "wr d (y * w2 c + x) v = Some (d[y * w2 c + x := v])"
      using that(4) by (simp add: wr_def Q_def)
    have "Q y (x + 1) (d[y * w2 c + x := v])"
      unfolding Q_def
    proof (intro conjI allI impI)
      show "length (d[y * w2 c + x := v]) = w2 c * h2 c"
        using that(4) by (simp add: Q_def)
    next
      fix y' x' assume y': "y' < h2 c" and x': "x' < w2 c"
      have lt: "y' * w2 c + x' < length d"
        using px_lt [OF x' y'] that(4) by (simp add: Q_def)
      have old: "d ! (y' * w2 c + x') = (if y' < y \<or> (y' = y \<and> x' < x) then T x' y' else 0)"
        using that(4) y' x' by (simp add: Q_def)
      show "d[y * w2 c + x := v] ! (y' * w2 c + x') =
          (if y' < y \<or> (y' = y \<and> x' < x + 1) then T x' y' else 0)"
      proof (cases "y' = y \<and> x' = x")
        case True
        then show ?thesis using lt Tv by simp
      next
        case False
        then have "y * w2 c + x \<noteq> y' * w2 c + x'"
          using grid_inj [OF xw x', of y y'] by auto
        then show ?thesis using old False by (auto simp: less_Suc_eq)
      qed
    qed
    then show ?thesis
      using True rdv wrv by (simp add: Let_def del: of_nat_add of_nat_mult)
  qed
  have row: "\<exists>d'. ?row y d = Some d' \<and> Q (y + 1) 0 d'" if "y < ybsz c" "Q y 0 d" for y d
  proof (cases "ybl * ybsz c + y < image_height c")
    case False
    then have "T x y = 0" for x by (simp add: T_def tile_sample_def)
    then have "Q (y + 1) 0 d"
      using that(2) unfolding Q_def by (auto simp: less_Suc_eq)
    then show ?thesis using False by (simp add: Let_def del: of_nat_add of_nat_mult)
  next
    case True
    have "\<exists>d'. for_loop 0 (xbsz c) (?inner y) d = Some d' \<and> Q y (xbsz c) d'"
      by (rule for_loop_total [where P = "\<lambda>x d. Q y x d"])
         (use that True inner in auto)
    then obtain d' where d': "for_loop 0 (xbsz c) (?inner y) d = Some d'" "Q y (xbsz c) d'"
      by blast
    have "T x y = 0" if "\<not> x < xbsz c" for x
      using that by (simp add: T_def tile_sample_def)
    then have "Q (y + 1) 0 d'"
      using d'(2) unfolding Q_def by (auto simp: less_Suc_eq)
    then show ?thesis
      using True d'(1) by (simp add: Let_def del: of_nat_add of_nat_mult)
  qed
  have init: "memset_zero data2 (w2 c * h2 c) = Some (replicate (w2 c * h2 c) 0)"
    using d2 by (simp add: memset_zero_def)
  have Q0: "Q 0 0 (replicate (w2 c * h2 c) 0)"
    unfolding Q_def using px_lt by simp
  have "\<exists>d'. for_loop 0 (ybsz c) ?row (replicate (w2 c * h2 c) 0) = Some d' \<and> Q (ybsz c) 0 d'"
    by (rule for_loop_total [where P = "\<lambda>y d. Q y 0 d"])
       (use row Q0 in auto)
  then obtain d' where d': "for_loop 0 (ybsz c) ?row (replicate (w2 c * h2 c) 0) = Some d'" "Q (ybsz c) 0 d'"
    by blast
  have "T x y = 0" if "\<not> y < ybsz c" for x y
    using that by (simp add: T_def tile_sample_def)
  then have "\<forall>y<h2 c. \<forall>x<w2 c. d' ! (y * w2 c + x) = T x y"
    using d'(2) unfolding Q_def by auto
  moreover have "length d' = w2 c * h2 c"
    using d'(2) by (simp add: Q_def)
  moreover have "extract_tile c data2 image_buffer xbl ybl ch = Some d'"
    using d'(1) by (simp add: extract_tile_def init)
  ultimately show ?thesis
    unfolding T_def by blast
qed

lemma overlap_add_result:
  assumes r: "length rdst = image_width c * image_height c * 4"
    and d2: "length data2 = w2 c * h2 c" and ch: "ch < 4"
  shows "\<exists>r. overlap_add c rdst data2 xbl ybl ch = Some r \<and> length r = length rdst \<and>
           (\<forall>i<length rdst. i mod 4 \<noteq> ch \<longrightarrow> r ! i = rdst ! i)"
proof -
  define I where "I t \<longleftrightarrow> length t = length rdst \<and>
     (\<forall>i<length rdst. i mod 4 \<noteq> ch \<longrightarrow> t ! i = rdst ! i)" for t
  let ?inner = "\<lambda>y yy. \<lambda>x r.
           let xx = int (xbl * xbsz c + x) - int (hw c) in
           if xx < 0 \<or> xx \<ge> int (image_width c) then Some r
           else do {
             v \<leftarrow> rd data2 (y * w2 c + x);
             old \<leftarrow> px_rd r (image_width c) (image_height c) xx yy ch;
             px_wr r (image_width c) (image_height c) xx yy ch (old + v)
           }"
  let ?row = "\<lambda>y r.
       let yy = int (ybl * ybsz c + y) - int (hh c) in
       if yy < 0 \<or> yy \<ge> int (image_height c) then Some r
       else
         let fp = y * w2 c in
         for_loop 0 (w2 c) (\<lambda>x r.
           let xx = int (xbl * xbsz c + x) - int (hw c) in
           if xx < 0 \<or> xx \<ge> int (image_width c) then Some r
           else do {
             v \<leftarrow> rd data2 (fp + x);
             old \<leftarrow> px_rd r (image_width c) (image_height c) xx yy ch;
             px_wr r (image_width c) (image_height c) xx yy ch (old + v)
           }) r"
  have inner: "\<exists>t'. ?inner y yy x t = Some t' \<and> I t'"
    if "x < w2 c" "y < h2 c" "0 \<le> yy" "yy < int (image_height c)" "I t" for x y yy t
  proof -
    define xx where "xx = int (xbl * xbsz c + x) - int (hw c)"
    show ?thesis
    proof (cases "xx < 0 \<or> xx \<ge> int (image_width c)")
      case True
      then show ?thesis
        using that(5) by (simp add: Let_def xx_def [symmetric] del: of_nat_add of_nat_mult)
    next
      case False
      have "y * w2 c + x < w2 c * h2 c" using that(1,2) by (rule px_lt)
      then have rdv: "rd data2 (y * w2 c + x) = Some (data2 ! (y * w2 c + x))"
        using d2 by (simp add: rd_def)
      define idx where "idx = px_index (image_width c) (nat xx) (nat yy) ch"
      have "nat xx < image_width c" "nat yy < image_height c"
        using False that(3,4) by linarith+
      then have "nat yy * image_width c + nat xx < image_width c * image_height c"
        by (rule px_lt)
      then have "idx < length rdst"
        using ch r unfolding idx_def px_index_eq by simp
      moreover have "idx mod 4 = ch"
        using ch unfolding idx_def by (rule px_index_mod)
      ultimately have idx: "idx < length rdst" "idx mod 4 = ch" .
      have ok: "px_ok (image_width c) (image_height c) xx yy"
        using False that(3,4) by (simp add: px_ok_def)
      have lt: "length t = length rdst"
        using that(5) by (simp add: I_def)
      have run: "?inner y yy x t = Some (t[idx := t ! idx + data2 ! (y * w2 c + x)])"
        using False rdv ok idx(1) lt
        by (simp add: Let_def xx_def [symmetric] idx_def [symmetric] px_rd_def px_wr_def rd_def wr_def
            del: of_nat_add of_nat_mult)
      have "I (t[idx := t ! idx + data2 ! (y * w2 c + x)])"
        unfolding I_def
      proof (intro conjI allI impI)
        show "length (t[idx := t ! idx + data2 ! (y * w2 c + x)]) = length rdst"
          using lt by simp
      next
        fix i assume i: "i < length rdst" "i mod 4 \<noteq> ch"
        then have "i \<noteq> idx" using idx(2) by auto
        then show "t[idx := t ! idx + data2 ! (y * w2 c + x)] ! i = rdst ! i"
          using that(5) i by (simp add: I_def)
      qed
      then show ?thesis using run by simp
    qed
  qed
  have row: "\<exists>t'. ?row y t = Some t' \<and> I t'" if "y < h2 c" "I t" for y t
  proof -
    define yy where "yy = int (ybl * ybsz c + y) - int (hh c)"
    show ?thesis
    proof (cases "yy < 0 \<or> yy \<ge> int (image_height c)")
      case True
      then show ?thesis
        using that(2) by (simp add: Let_def yy_def [symmetric] del: of_nat_add of_nat_mult)
    next
      case False
      have "\<exists>t'. for_loop 0 (w2 c) (?inner y yy) t = Some t' \<and> I t'"
        by (rule for_loop_total [where P = "\<lambda>x t. I t"])
           (use that False inner in auto)
      then show ?thesis
        using False by (simp add: Let_def yy_def [symmetric] del: of_nat_add of_nat_mult)
    qed
  qed
  have "\<exists>t'. for_loop 0 (h2 c) ?row rdst = Some t' \<and> I t'"
    by (rule for_loop_total [where P = "\<lambda>y t. I t"])
       (use row in \<open>auto simp: I_def\<close>)
  then show ?thesis
    by (simp add: overlap_add_def I_def)
qed

lemma px_rd_in_range:
  "px_rd buf w h x y ch = Some v \<Longrightarrow> 0 \<le> x \<and> x < int w \<and> 0 \<le> y \<and> y < int h"
  by (simp add: px_rd_def px_ok_def split: if_splits)

lemma px_wr_in_range:
  "px_wr buf w h x y ch v = Some buf' \<Longrightarrow> 0 \<le> x \<and> x < int w \<and> 0 \<le> y \<and> y < int h"
  by (simp add: px_wr_def px_ok_def split: if_splits)

text \<open>C5: in a tile iteration, whatever the padded buffer held before, the extraction
  returns a buffer that holds the samples of the tile and zero everywhere else; the
  extraction and the accumulation succeed, and the accesses of the model to the pixels of
  the image and of the destination fail for a coordinate outside of \<open>0 \<le> x < image_width\<close>,
  \<open>0 \<le> y < image_height\<close> (\<open>px_rd_in_range\<close>, \<open>px_wr_in_range\<close>): every access is in range,
  the positions out of range are skipped. The accumulation for the channel \<open>ch\<close> leaves
  the samples of the other channels as they were.\<close>

theorem tile_steps_in_bounds:
  assumes "length image_buffer = image_width c * image_height c * 4"
    and "length rdst = image_width c * image_height c * 4"
    and "length data2 = w2 c * h2 c" and "length data2' = w2 c * h2 c"
    and "xbsz c \<le> w2 c" and "ybsz c \<le> h2 c" and "ch < 4"
  shows "(\<exists>d. extract_tile c data2 image_buffer xbl ybl ch = Some d \<and> length d = w2 c * h2 c \<and>
            (\<forall>y<h2 c. \<forall>x<w2 c. d ! (y * w2 c + x) = tile_sample c image_buffer xbl ybl ch x y)) \<and>
         (\<exists>r. overlap_add c rdst data2' xbl ybl ch = Some r \<and> length r = length rdst \<and>
            (\<forall>i<length rdst. i mod 4 \<noteq> ch \<longrightarrow> r ! i = rdst ! i))"
  using extract_tile_result [OF assms(1,3,5,6,7)] overlap_add_result [OF assms(2,4,7)]
  by blast

theorem tile_steps_in_bounds_witness:
  "(\<exists>d. extract_tile \<lparr>image_width = 1, image_height = 1, kernel_width = 2, kernel_height = 2,
            w2 = 4, h2 = 4, log2_w = 2, log2_h = 2, hw = 1, hh = 1, xbsz = 3, ybsz = 3\<rparr>
          (replicate 16 9) [5, 6, 7, 8] 0 0 0 = Some d \<and> length d = 16) \<and>
   (\<exists>r. overlap_add \<lparr>image_width = 1, image_height = 1, kernel_width = 2, kernel_height = 2,
            w2 = 4, h2 = 4, log2_w = 2, log2_h = 2, hw = 1, hh = 1, xbsz = 3, ybsz = 3\<rparr>
          [0, 0, 0, 0] (replicate 16 1) 0 0 0 = Some r \<and> length r = 4)"
  using tile_steps_in_bounds [of "[5, 6, 7, 8]"
      "\<lparr>image_width = 1, image_height = 1, kernel_width = 2, kernel_height = 2,
        w2 = 4, h2 = 4, log2_w = 2, log2_h = 2, hw = 1, hh = 1, xbsz = 3, ybsz = 3\<rparr>"
      "[0, 0, 0, 0]" "replicate 16 9" "replicate 16 1" 0 0 0]
  by auto

subsection \<open>The destination of the accumulation\<close>

lemma overlap_add_frame:
  assumes run: "overlap_add c rdst data2 xbl ybl ch = Some r" and ch: "ch < 4"
  shows "length r = length rdst \<and> (\<forall>i<length rdst. i mod 4 \<noteq> ch \<longrightarrow> r ! i = rdst ! i)"
proof -
  define I where "I t \<longleftrightarrow> length t = length rdst \<and>
     (\<forall>i<length rdst. i mod 4 \<noteq> ch \<longrightarrow> t ! i = rdst ! i)" for t
  have wr_I: "I t'" if "I t" "px_wr t (image_width c) (image_height c) xx yy ch v = Some t'" for t t' xx yy v
  proof -
    define idx where "idx = px_index (image_width c) (nat xx) (nat yy) ch"
    have t': "t' = t[idx := v]"
      using that(2) by (simp add: px_wr_def wr_def idx_def split: if_splits)
    have "idx mod 4 = ch"
      using ch unfolding idx_def by (rule px_index_mod)
    then have "idx \<noteq> i" if "i mod 4 \<noteq> ch" for i
      using that by auto
    then show ?thesis
      using that(1) unfolding I_def t' by auto
  qed
  have "I r"
    using run unfolding overlap_add_def
  proof (rule for_loop_partial [where P = "\<lambda>y t. I t"])
    show "I rdst" by (simp add: I_def)
  next
    fix y u u'
    assume u: "I u" and step: "(let yy = int (ybl * ybsz c + y) - int (hh c) in
       if yy < 0 \<or> yy \<ge> int (image_height c) then Some u
       else
         let fp = y * w2 c in
         for_loop 0 (w2 c) (\<lambda>x r.
           let xx = int (xbl * xbsz c + x) - int (hw c) in
           if xx < 0 \<or> xx \<ge> int (image_width c) then Some r
           else do {
             v \<leftarrow> rd data2 (fp + x);
             old \<leftarrow> px_rd r (image_width c) (image_height c) xx yy ch;
             px_wr r (image_width c) (image_height c) xx yy ch (old + v)
           }) u) = Some u'"
    define yy where "yy = int (ybl * ybsz c + y) - int (hh c)"
    show "I u'"
    proof (cases "yy < 0 \<or> yy \<ge> int (image_height c)")
      case True
      then show ?thesis
        using step u by (simp add: Let_def yy_def [symmetric] del: of_nat_add of_nat_mult)
    next
      case False
      then have inner: "for_loop 0 (w2 c) (\<lambda>x r.
           let xx = int (xbl * xbsz c + x) - int (hw c) in
           if xx < 0 \<or> xx \<ge> int (image_width c) then Some r
           else do {
             v \<leftarrow> rd data2 (y * w2 c + x);
             old \<leftarrow> px_rd r (image_width c) (image_height c) xx yy ch;
             px_wr r (image_width c) (image_height c) xx yy ch (old + v)
           }) u = Some u'"
        using step by (simp add: Let_def yy_def [symmetric] del: of_nat_add of_nat_mult)
      show ?thesis
        using inner
      proof (rule for_loop_partial [where P = "\<lambda>x t. I t"])
        show "I u" by (rule u)
      next
        fix x t t'
        assume "I t" and "(let xx = int (xbl * xbsz c + x) - int (hw c) in
           if xx < 0 \<or> xx \<ge> int (image_width c) then Some t
           else do {
             v \<leftarrow> rd data2 (y * w2 c + x);
             old \<leftarrow> px_rd t (image_width c) (image_height c) xx yy ch;
             px_wr t (image_width c) (image_height c) xx yy ch (old + v)
           }) = Some t'"
        then show "I t'"
          using wr_I by (auto simp: Let_def split: if_splits bind_splits)
      qed simp
    qed
  qed simp
  then show ?thesis by (simp add: I_def)
qed

lemma conv_channel_frame:
  assumes "conv_channel c image_buffer kernel_buffer xbl ybl in2done ch (rdst, data1, data2)
             = Some (rdst', data1', data2')"
    and "ch < 4"
  shows "length rdst' = length rdst \<and> (\<forall>i<length rdst. i mod 4 \<noteq> ch \<longrightarrow> rdst' ! i = rdst ! i)"
proof -
  from assms(1) obtain d where "overlap_add c rdst d xbl ybl ch = Some rdst'"
    by (auto simp: conv_channel_def Let_def split: bind_splits)
  then show ?thesis
    using assms(2) by (rule overlap_add_frame)
qed

lemma conv_blocks_alpha:
  assumes run: "conv_blocks c image_buffer kernel_buffer nxb nyb (rdst, data1, data2, in2done)
             = Some (rdst', data1', data2', in2done')"
    and len: "length rdst = n * 4" and a: "alpha_zero rdst n"
  shows "length rdst' = n * 4 \<and> alpha_zero rdst' n"
proof -
  define A where "A t \<longleftrightarrow> length t = n * 4 \<and> alpha_zero t n" for t :: "real list"
  have chan: "A r'" if "A r" "ch < 3"
    "conv_channel c image_buffer kernel_buffer xbl ybl dn ch (r, d1, d2) = Some (r', d1', d2')"
    for r r' d1 d2 d1' d2' xbl ybl dn ch
  proof -
    have fr: "length r' = length r" "\<And>i. i < length r \<Longrightarrow> i mod 4 \<noteq> ch \<Longrightarrow> r' ! i = r ! i"
      using conv_channel_frame [OF that(3)] that(2) by simp_all
    have "r' ! (p * 4 + 3) = r ! (p * 4 + 3)" if "p < n" for p
    proof -
      have "(p * 4 + 3) mod 4 = 3" by presburger
      then show ?thesis
        using fr(2) [of "p * 4 + 3"] \<open>A r\<close> \<open>ch < 3\<close> that by (simp add: A_def)
    qed
    then show ?thesis
      using that(1) fr(1) by (simp add: A_def alpha_zero_def)
  qed
  have chans: "A (fst t')" if "A (fst t)"
    "for_loop 0 3 (conv_channel c image_buffer kernel_buffer xbl ybl dn) t = Some t'"
    for t t' xbl ybl dn
    using that(2)
  proof (rule for_loop_partial [where P = "\<lambda>ch t. A (fst t)"])
    show "A (fst t)" by (rule that(1))
  next
    fix k u u'
    assume "k < 3" "A (fst u)" "conv_channel c image_buffer kernel_buffer xbl ybl dn k u = Some u'"
    then show "A (fst u')"
      using chan [of "fst u" k xbl ybl dn "fst (snd u)" "snd (snd u)" "fst u'" "fst (snd u')" "snd (snd u')"]
      by simp
  qed simp
  have block: "A (fst s')" if "A (fst s)"
    "(case s of (rdst, data1, data2, in2done) \<Rightarrow> do {
            (rdst, data1, data2) \<leftarrow>
              for_loop 0 3 (conv_channel c image_buffer kernel_buffer xbl ybl in2done)
                (rdst, data1, data2);
            Some (rdst, data1, data2, True)
          }) = Some s'" for s s' xbl ybl
  proof -
    obtain r d1 d2 dn where s: "s = (r, d1, d2, dn)" by (cases s) auto
    from that(2) obtain t' where t': "for_loop 0 3 (conv_channel c image_buffer kernel_buffer xbl ybl dn)
        (r, d1, d2) = Some t'" "fst s' = fst t'"
      unfolding s by (auto split: bind_splits prod.splits)
    have "A (fst t')"
      using chans [OF _ t'(1)] that(1) by (simp add: s)
    then show ?thesis by (simp add: t'(2))
  qed
  have "A (fst (rdst', data1', data2', in2done'))"
    using run unfolding conv_blocks_def
  proof (rule for_loop_partial [where P = "\<lambda>ybl s. A (fst s)"])
    show "A (fst (rdst, data1, data2, in2done))"
      using len a by (simp add: A_def)
  next
    fix ybl u u'
    assume u: "A (fst u)" and step: "for_loop 0 nxb (\<lambda>xbl s.
         (case s of (rdst, data1, data2, in2done) \<Rightarrow> do {
            (rdst, data1, data2) \<leftarrow>
              for_loop 0 3 (conv_channel c image_buffer kernel_buffer xbl ybl in2done)
                (rdst, data1, data2);
            Some (rdst, data1, data2, True)
          })) u = Some u'"
    show "A (fst u')"
      using step
    proof (rule for_loop_partial [where P = "\<lambda>xbl s. A (fst s)"])
      show "A (fst u)" by (rule u)
    next
      fix xbl s s'
      assume "A (fst s)" "(case s of (rdst, data1, data2, in2done) \<Rightarrow> do {
            (rdst, data1, data2) \<leftarrow>
              for_loop 0 3 (conv_channel c image_buffer kernel_buffer xbl ybl in2done)
                (rdst, data1, data2);
            Some (rdst, data1, data2, True)
          }) = Some s'"
      then show "A (fst s')" by (rule block)
    qed simp
  qed simp
  then show ?thesis by (simp add: A_def)
qed

subsection \<open>The buffers of the callers\<close>

text \<open>The equations that evaluate the model.\<close>

lemma replicate_numeral_ev: "replicate (numeral k) x = x # replicate (pred_numeral k) x"
  by (simp add: numeral_eq_Suc)

lemmas fht_ev = FHT_def FHT_bitrev.simps FHT_stages.simps FHT_pass.simps FHT_rot.simps
  FHT_rot_inner.simps FHT_scale.simps revbin_upd.simps

lemmas fht2d_ev = FHT2D_def FHT2D_rows_def FHT2D_finalize_def FHT2D_transpose_def
  transpose_square_def transpose_rect.simps transpose_cycle.simps transpose_seek.simps PRED_def
  swap_at_def udec_def drop_bit_eq_div push_bit_eq_mult numeral_2_eq_2 [symmetric]

lemmas conv_ev = convolve_def conv_blocks_def conv_channel_def overlap_add_def extract_tile_def
  load_kernel_def normalize_kernel_def kernel_scale_def weight_recip_def kernel_weights_def
  conv_pow2_size_def memcpy_buf_def memset_zero_def px_wr_def px_rd_def px_ok_def px_index_def
  COM_DATA_TYPE_COLOR_CHANNELS_def fht_convolve_def fht_pair_def fht_corner_def next_pow2_def
  next_pow2_loop.simps replicate_numeral_ev

lemma convolve_parts:
  assumes "convolve dst in1 in2 = Some (dst', in1', in2')"
  shows "\<exists>kb c nxb nyb d1 d2 rdst d1' d2' dn.
           normalize_kernel (get_buffer in2) (get_width in2) (get_height in2) = Some kb \<and>
           conv_blocks c (get_buffer in1) kb nxb nyb
             (replicate (get_width in1 * get_height in1 * 4) 0, d1, d2, False) = Some (rdst, d1', d2', dn) \<and>
           memcpy_buf dst rdst (get_width in1 * get_height in1 * 4) = Some dst' \<and>
           in1' = in1 \<and> in2' = in2 \<lparr> get_buffer := kb \<rparr>"
  using assms unfolding convolve_def Let_def COM_DATA_TYPE_COLOR_CHANNELS_def
  by (auto split: bind_splits prod.splits if_splits) blast+

text \<open>C9: whenever \<^verbatim>\<open>convolve\<close> returns, the fourth (alpha) sample of every pixel of the
  destination is zero: the buffer \<open>rdst\<close> starts cleared, the accumulation writes the
  channels 0, 1 and 2 only, and \<open>rdst\<close> is copied into the destination.\<close>

theorem convolve_alpha_zero:
  assumes "convolve dst in1 in2 = Some (dst', in1', in2')"
  shows "alpha_zero dst' (get_width in1 * get_height in1)"
proof -
  define n where "n = get_width in1 * get_height in1"
  from convolve_parts [OF assms]
  obtain kb c nxb nyb d1 d2 rdst d1' d2' dn where
    blocks: "conv_blocks c (get_buffer in1) kb nxb nyb (replicate (n * 4) 0, d1, d2, False)
               = Some (rdst, d1', d2', dn)"
    and copy: "memcpy_buf dst rdst (n * 4) = Some dst'"
    unfolding n_def by blast
  have "alpha_zero (replicate (n * 4) 0) n"
    by (simp add: alpha_zero_def)
  then have r: "length rdst = n * 4" "alpha_zero rdst n"
    using conv_blocks_alpha [OF blocks] by simp_all
  have "dst' = take (n * 4) rdst @ drop (n * 4) dst"
    using copy by (simp add: memcpy_buf_def split: if_splits)
  then have "dst' ! i = rdst ! i" if "i < n * 4" for i
    using that r(1) by (simp add: nth_append)
  then show ?thesis
    using r(2) unfolding alpha_zero_def n_def [symmetric] by simp
qed

text \<open>C3, amended: whenever \<^verbatim>\<open>convolve\<close> returns, the image is as it was, and the kernel
  buffer holds the normalised kernel: it is written in place by the normalisation (the three
  colour samples of each pixel are multiplied by the weight of their channel).\<close>

theorem convolve_frame:
  assumes "convolve dst in1 in2 = Some (dst', in1', in2')"
    and "length (get_buffer in2) = get_width in2 * get_height in2 * 4"
  shows "in1' = in1 \<and> get_width in2' = get_width in2 \<and> get_height in2' = get_height in2 \<and>
         kernel_normalized (get_buffer in2) (get_width in2 * get_height in2) (get_buffer in2')"
proof -
  from convolve_parts [OF assms(1)]
  obtain kb where kb: "normalize_kernel (get_buffer in2) (get_width in2) (get_height in2) = Some kb"
    and eq: "in1' = in1" "in2' = in2 \<lparr> get_buffer := kb \<rparr>"
    by blast
  from normalize_kernel_result [OF assms(2)] kb
  have "kernel_normalized (get_buffer in2) (get_width in2 * get_height in2) kb"
    by auto
  then show ?thesis
    using eq by simp
qed

text \<open>A run of \<^verbatim>\<open>convolve\<close>: an image of one pixel and a kernel of 2 by 2 pixels, the
  transforms have 4 by 4 samples.\<close>

lemma convolve_example:
  "convolve [9, 9, 9, 9] \<lparr>get_width = 1, get_height = 1, get_buffer = [5, 6, 7, 8]\<rparr>
     \<lparr>get_width = 2, get_height = 2,
      get_buffer = [1, 1, 1, 1, 2, 3, 4, 5, 0, 0, 0, 0, 1, 0, - 4, 0]\<rparr>
   = Some ([5 / 4, 0, - 28, 0],
       \<lparr>get_width = 1, get_height = 1, get_buffer = [5, 6, 7, 8]\<rparr>,
       \<lparr>get_width = 2, get_height = 2,
        get_buffer = [1 / 4, 1 / 4, 1, 1, 1 / 2, 3 / 4, 4, 5, 0, 0, 0, 0, 1 / 4, 0, - 4, 0]\<rparr>)"
  by (simp add: fht_ev fht2d_ev conv_ev loop_ev
      cong: bind_weak_cong for_loop_weak_cong case_prod_weak_cong let_weak_cong)

theorem convolve_alpha_zero_witness:
  "alpha_zero [5 / 4, 0, - 28, 0] (1 * 1)"
  using convolve_alpha_zero [OF convolve_example] by simp

theorem convolve_frame_witness:
  "kernel_normalized [1, 1, 1, 1, 2, 3, 4, 5, 0, 0, 0, 0, 1, 0, - 4, 0] (2 * 2)
     [1 / 4, 1 / 4, 1, 1, 1 / 2, 3 / 4, 4, 5, 0, 0, 0, 0, 1 / 4, 0, - 4, 0]"
  using convolve_frame [OF convolve_example] by simp

text \<open>C3 as stated fails: the kernel buffer is not the same on return.\<close>

theorem convolve_changes_kernel:
  "convolve [9, 9, 9, 9] \<lparr>get_width = 1, get_height = 1, get_buffer = [5, 6, 7, 8]\<rparr>
     \<lparr>get_width = 2, get_height = 2,
      get_buffer = [1, 1, 1, 1, 2, 3, 4, 5, 0, 0, 0, 0, 1, 0, - 4, 0]\<rparr>
   = Some ([5 / 4, 0, - 28, 0],
       \<lparr>get_width = 1, get_height = 1, get_buffer = [5, 6, 7, 8]\<rparr>,
       \<lparr>get_width = 2, get_height = 2,
        get_buffer = [1 / 4, 1 / 4, 1, 1, 1 / 2, 3 / 4, 4, 5, 0, 0, 0, 0, 1 / 4, 0, - 4, 0]\<rparr>) \<and>
   [1 / 4, 1 / 4, 1, 1, 1 / 2, 3 / 4, 4, 5, 0, 0, 0, 0, 1 / 4, 0, - 4, 0]
     \<noteq> [1, 1, 1, 1, 2, 3, 4, 5, 0, 0, 0, 0, 1, 0, - 4, (0 :: real)]"
  using convolve_example by simp

text \<open>C1: with a kernel of one pixel of value 1 the transforms have the length 1, and the
  first butterfly of \<^verbatim>\<open>FHT\<close> reads \<^verbatim>\<open>data[1]\<close>, which is outside of the tile buffer of one
  sample: \<^verbatim>\<open>convolve\<close> does not write the image into the destination.\<close>

theorem convolve_unit_kernel_fails:
  "convolve [9, 9, 9, 9] \<lparr>get_width = 1, get_height = 1, get_buffer = [5, 6, 7, 0]\<rparr>
     \<lparr>get_width = 1, get_height = 1, get_buffer = [1, 1, 1, 1]\<rparr> = None"
  by (simp add: fht_ev fht2d_ev conv_ev loop_ev
      cong: bind_weak_cong for_loop_weak_cong case_prod_weak_cong let_weak_cong)

subsection \<open>The spectral product is symmetric\<close>

lemma for_loop_total2:
  assumes "i \<le> n" and "R i s s'"
    and "\<And>k t t'. i \<le> k \<Longrightarrow> k < n \<Longrightarrow> R k t t' \<Longrightarrow>
           \<exists>u u'. body k t = Some u \<and> body' k t' = Some u' \<and> R (k + 1) u u'"
  shows "\<exists>u u'. for_loop i n body s = Some u \<and> for_loop i n body' s' = Some u' \<and> R n u u'"
  using assms
proof (induction "n - i" arbitrary: i s s')
  case 0
  then have "i = n" by simp
  then show ?case
    using "0.prems"(2) by (simp add: for_loop_empty)
next
  case (Suc d)
  then have lt: "i < n" by simp
  from Suc.prems(3) [OF le_refl lt Suc.prems(2)]
  obtain u u' where u: "body i s = Some u" "body' i s' = Some u'" "R (i + 1) u u'"
    by blast
  have "\<exists>v v'. for_loop (i + 1) n body u = Some v \<and> for_loop (i + 1) n body' u' = Some v' \<and> R n v v'"
  proof (rule Suc.hyps(1))
    show "d = n - (i + 1)" using Suc.hyps(2) by simp
    show "i + 1 \<le> n" using lt by simp
    show "R (i + 1) u u'" by (rule u(3))
    show "\<exists>u u'. body k t = Some u \<and> body' k t' = Some u' \<and> R (k + 1) u u'"
      if "i + 1 \<le> k" "k < n" "R k t t'" for k t t'
      using Suc.prems(3) [of k t t'] that by simp
  qed
  then show ?case
    using lt u(1,2) by (simp add: for_loop.simps [of i n body] for_loop.simps [of i n body'])
qed

lemma grid_inj':
  fixes c r c' r' m :: nat
  assumes "c < m" "c' < m"
  shows "c + r * m = c' + r' * m \<longleftrightarrow> c = c' \<and> r = r'"
  using grid_inj [OF assms, of r r'] by (auto simp add: add.commute)

lemma grid_lt:
  fixes c r m n :: nat
  assumes "c < m" "r < n"
  shows "c + r * m < m * n"
  using px_lt [OF assms] by (simp add: add.commute)

lemma sym_inv_cong:
  assumes "sym_inv x y m n P b b'" and "\<And>c r. c < m \<Longrightarrow> r < n \<Longrightarrow> P c r = P' c r"
  shows "sym_inv x y m n P' b b'"
  using assms unfolding sym_inv_def by simp

lemma sym_corner_step:
  assumes inv: "sym_inv x y m n P b b'"
    and c1: "c1 < m" and r1: "r1 < n" and new: "\<not> P c1 r1"
    and lx: "length x = m * n" and ly: "length y = m * n"
  shows "\<exists>u u'. fht_corner b 0 y 0 (c1 + r1 * m) = Some u \<and>
                fht_corner b' 0 x 0 (c1 + r1 * m) = Some u' \<and>
                sym_inv x y m n (\<lambda>c r. P c r \<or> (c = c1 \<and> r = r1)) u u'"
proof -
  define p where "p = c1 + r1 * m"
  have p: "p < m * n" unfolding p_def using c1 r1 by (rule grid_lt)
  have lb: "length b = m * n" "length b' = m * n"
    using inv by (simp_all add: sym_inv_def)
  have vals: "b ! p = x ! p" "b' ! p = y ! p"
    using inv c1 r1 new by (auto simp: sym_inv_def p_def)
  define u where "u = b[p := x ! p * y ! p]"
  define u' where "u' = b'[p := x ! p * y ! p]"
  have run: "fht_corner b 0 y 0 p = Some u" "fht_corner b' 0 x 0 p = Some u'"
    using p lb lx ly vals by (simp_all add: fht_corner_def rd_def wr_def u_def u'_def mult.commute)
  have "sym_inv x y m n (\<lambda>c r. P c r \<or> (c = c1 \<and> r = r1)) u u'"
    unfolding sym_inv_def
  proof (intro conjI allI impI)
    show "length u = m * n" "length u' = m * n"
      using lb by (simp_all add: u_def u'_def)
  next
    fix c r assume c: "c < m" and r: "r < n"
    have lt: "c + r * m < m * n" using c r by (rule grid_lt)
    show "if P c r \<or> (c = c1 \<and> r = r1) then u ! (c + r * m) = u' ! (c + r * m)
          else u ! (c + r * m) = x ! (c + r * m) \<and> u' ! (c + r * m) = y ! (c + r * m)"
    proof (cases "c = c1 \<and> r = r1")
      case True
      then show ?thesis using p lb by (simp add: u_def u'_def p_def)
    next
      case False
      then have "p \<noteq> c + r * m"
        unfolding p_def using grid_inj' [OF c1 c, of r1 r] by auto
      then show ?thesis
        using inv c r False by (auto simp: sym_inv_def u_def u'_def)
    qed
  qed
  then show ?thesis
    using run unfolding p_def by blast
qed

lemma sym_pair_step:
  assumes inv: "sym_inv x y m n P b b'"
    and c1: "c1 < m" and r1: "r1 < n" and new1: "\<not> P c1 r1"
    and c2: "c2 < m" and r2: "r2 < n" and new2: "\<not> P c2 r2"
    and ne: "c1 \<noteq> c2 \<or> r1 \<noteq> r2"
    and lx: "length x = m * n" and ly: "length y = m * n"
  shows "\<exists>u u'. fht_pair b 0 y 0 (c1 + r1 * m) (c2 + r2 * m) = Some u \<and>
                fht_pair b' 0 x 0 (c1 + r1 * m) (c2 + r2 * m) = Some u' \<and>
                sym_inv x y m n (\<lambda>c r. P c r \<or> (c = c1 \<and> r = r1) \<or> (c = c2 \<and> r = r2)) u u'"
proof -
  define p where "p = c1 + r1 * m"
  define q where "q = c2 + r2 * m"
  have p: "p < m * n" unfolding p_def using c1 r1 by (rule grid_lt)
  have q: "q < m * n" unfolding q_def using c2 r2 by (rule grid_lt)
  have pq: "p \<noteq> q"
    unfolding p_def q_def using grid_inj' [OF c1 c2, of r1 r2] ne by auto
  have lb: "length b = m * n" "length b' = m * n"
    using inv by (simp_all add: sym_inv_def)
  have vals: "b ! p = x ! p" "b' ! p = y ! p" "b ! q = x ! q" "b' ! q = y ! q"
    using inv c1 r1 new1 c2 r2 new2 by (auto simp: sym_inv_def p_def q_def)
  define A where "A = x ! p * y ! p - x ! q * y ! q"
  define B where "B = x ! q * y ! p + x ! p * y ! q"
  define u where "u = b[p := (B + A) * 0.5, q := (B - A) * 0.5]"
  define u' where "u' = b'[p := (B + A) * 0.5, q := (B - A) * 0.5]"
  have run1: "fht_pair b 0 y 0 p q = Some u"
    using p q lb lx ly vals
    by (simp add: fht_pair_def rd_def wr_def u_def A_def B_def Let_def)
  have A': "y ! p * x ! p - y ! q * x ! q = A" and B': "y ! q * x ! p + y ! p * x ! q = B"
    by (simp_all add: A_def B_def mult.commute)
  have run2: "fht_pair b' 0 x 0 p q = Some u'"
    using p q lb lx ly vals
    by (simp add: fht_pair_def rd_def wr_def u'_def A' B' Let_def)
  have "sym_inv x y m n (\<lambda>c r. P c r \<or> (c = c1 \<and> r = r1) \<or> (c = c2 \<and> r = r2)) u u'"
    unfolding sym_inv_def
  proof (intro conjI allI impI)
    show "length u = m * n" "length u' = m * n"
      using lb by (simp_all add: u_def u'_def)
  next
    fix c r assume c: "c < m" and r: "r < n"
    have lt: "c + r * m < m * n" using c r by (rule grid_lt)
    have ep: "p = c + r * m \<longleftrightarrow> c = c1 \<and> r = r1"
      unfolding p_def using grid_inj' [OF c1 c, of r1 r] by auto
    have eq: "q = c + r * m \<longleftrightarrow> c = c2 \<and> r = r2"
      unfolding q_def using grid_inj' [OF c2 c, of r2 r] by auto
    consider "p = c + r * m" | "q = c + r * m" | "p \<noteq> c + r * m" "q \<noteq> c + r * m"
      by blast
    then show "if P c r \<or> (c = c1 \<and> r = r1) \<or> (c = c2 \<and> r = r2)
          then u ! (c + r * m) = u' ! (c + r * m)
          else u ! (c + r * m) = x ! (c + r * m) \<and> u' ! (c + r * m) = y ! (c + r * m)"
    proof cases
      case 1
      then show ?thesis using ep p q pq lb by (simp add: u_def u'_def)
    next
      case 2
      then show ?thesis using eq p q pq lb by (simp add: u_def u'_def)
    next
      case 3
      then show ?thesis
        using ep eq inv c r by (auto simp: sym_inv_def u_def u'_def)
    qed
  qed
  then show ?thesis
    using run1 run2 unfolding p_def q_def by blast
qed

lemma paired_upto_1: "\<not> paired_upto h (Suc 0) p"
  by (auto simp: paired_upto_def)

lemma paired_upto_Suc:
  assumes "1 \<le> k" "k < h"
  shows "paired_upto h (Suc k) p \<longleftrightarrow> paired_upto h k p \<or> p = k \<or> p = 2 * h - k"
  using assms by (auto simp: paired_upto_def)

lemma paired_upto_full:
  assumes "p < 2 * h"
  shows "paired_upto h h p \<longleftrightarrow> p \<noteq> 0 \<and> p \<noteq> h"
  using assms by (auto simp: paired_upto_def)

lemma paired_upto_new:
  assumes "1 \<le> k" "k < h"
  shows "\<not> paired_upto h k k" "\<not> paired_upto h k (2 * h - k)" "k \<noteq> 2 * h - k"
    "k \<noteq> 0" "k \<noteq> h" "2 * h - k \<noteq> 0" "2 * h - k \<noteq> h" "k < 2 * h" "2 * h - k < 2 * h"
  using assms by (auto simp: paired_upto_def)

lemma fht_convolve_symmetric_aux:
  fixes x y :: "real list" and m2 n2 :: nat
  assumes m2: "0 < m2" and n2: "0 < n2"
    and lx: "length x = (2 * m2) * (2 * n2)" and ly: "length y = (2 * m2) * (2 * n2)"
  defines "m \<equiv> 2 * m2" and "n \<equiv> 2 * n2"
  defines "chain \<equiv> \<lambda>buf1 buf2. do {
        b \<leftarrow> fht_corner buf1 0 buf2 0 (0 + 0 * m);
        b \<leftarrow> fht_corner b 0 buf2 0 (0 + n2 * m);
        b \<leftarrow> fht_corner b 0 buf2 0 (m2 + 0 * m);
        b \<leftarrow> fht_corner b 0 buf2 0 (m2 + n2 * m);
        b \<leftarrow> for_loop 1 m2 (\<lambda>i b. do {
               b \<leftarrow> fht_pair b 0 buf2 0 (i + 0 * m) ((m - i) + 0 * m);
               fht_pair b 0 buf2 0 (i + n2 * m) ((m - i) + n2 * m)
             }) b;
        b \<leftarrow> for_loop 1 n2 (\<lambda>j b. do {
               b \<leftarrow> fht_pair b 0 buf2 0 (0 + j * m) (0 + (n - j) * m);
               fht_pair b 0 buf2 0 (m2 + j * m) (m2 + (n - j) * m)
             }) b;
        for_loop 1 m2 (\<lambda>i b.
          for_loop 1 n2 (\<lambda>j b. do {
            b \<leftarrow> fht_pair b 0 buf2 0 (i + j * m) ((m - i) + (n - j) * m);
            fht_pair b 0 buf2 0 (i + (n - j) * m) ((m - i) + j * m)
          }) b) b
      }"
  shows "\<exists>r. chain x y = Some r \<and> chain y x = Some r"
proof -
  note lxy = lx [folded m_def n_def] ly [folded m_def n_def]
  let ?I = "sym_inv x y m n"
  define Q0 where "Q0 c r \<longleftrightarrow> (c = 0 \<or> c = m2) \<and> (r = 0 \<or> r = n2)" for c r
  define Q1 where "Q1 i c r \<longleftrightarrow> Q0 c r \<or> ((r = 0 \<or> r = n2) \<and> paired_upto m2 i c)" for i c r
  define Q2 where "Q2 j c r \<longleftrightarrow> (r = 0 \<or> r = n2) \<or> ((c = 0 \<or> c = m2) \<and> paired_upto n2 j r)" for j c r
  define Q3 where "Q3 i j c r \<longleftrightarrow> (r = 0 \<or> r = n2 \<or> c = 0 \<or> c = m2) \<or> paired_upto m2 i c
      \<or> ((c = i \<or> c = m - i) \<and> paired_upto n2 j r)" for i j c r
  have n2n: "n2 < n" "n2 \<noteq> 0" "0 < n" and m2m: "m2 < m" "m2 \<noteq> 0" "0 < m"
    using m2 n2 by (simp_all add: m_def n_def)
  have start: "?I (\<lambda>c r. False) x y"
    using lxy by (simp add: sym_inv_def)
  \<comment> \<open>the four corners\<close>
  from sym_corner_step [OF start, of 0 0] m2 n2 lxy
  obtain a1 a1' where a1: "fht_corner x 0 y 0 (0 + 0 * m) = Some a1" "fht_corner y 0 x 0 (0 + 0 * m) = Some a1'"
    "?I (\<lambda>c r. False \<or> (c = 0 \<and> r = 0)) a1 a1'"
    unfolding m_def n_def by auto
  from sym_corner_step [OF a1(3), of 0 n2] m2 n2 lxy
  obtain a2 a2' where a2: "fht_corner a1 0 y 0 (0 + n2 * m) = Some a2" "fht_corner a1' 0 x 0 (0 + n2 * m) = Some a2'"
    "?I (\<lambda>c r. (False \<or> (c = 0 \<and> r = 0)) \<or> (c = 0 \<and> r = n2)) a2 a2'"
    unfolding m_def n_def by auto
  from sym_corner_step [OF a2(3), of m2 0] m2 n2 lxy
  obtain a3 a3' where a3: "fht_corner a2 0 y 0 (m2 + 0 * m) = Some a3" "fht_corner a2' 0 x 0 (m2 + 0 * m) = Some a3'"
    "?I (\<lambda>c r. ((False \<or> (c = 0 \<and> r = 0)) \<or> (c = 0 \<and> r = n2)) \<or> (c = m2 \<and> r = 0)) a3 a3'"
    unfolding m_def n_def by auto
  from sym_corner_step [OF a3(3), of m2 n2] m2 n2 lxy
  obtain a4 a4' where a4: "fht_corner a3 0 y 0 (m2 + n2 * m) = Some a4" "fht_corner a3' 0 x 0 (m2 + n2 * m) = Some a4'"
    "?I (\<lambda>c r. (((False \<or> (c = 0 \<and> r = 0)) \<or> (c = 0 \<and> r = n2)) \<or> (c = m2 \<and> r = 0)) \<or> (c = m2 \<and> r = n2)) a4 a4'"
    unfolding m_def n_def by auto
  have i1: "?I (Q1 1) a4 a4'"
    by (rule sym_inv_cong [OF a4(3)]) (auto simp: Q1_def Q0_def paired_upto_1)
  \<comment> \<open>the rows 0 and \<open>n2\<close>\<close>
  have step1: "\<exists>u u'. do { b \<leftarrow> fht_pair t 0 y 0 (i + 0 * m) ((m - i) + 0 * m);
                          fht_pair b 0 y 0 (i + n2 * m) ((m - i) + n2 * m) } = Some u \<and>
                     do { b \<leftarrow> fht_pair t' 0 x 0 (i + 0 * m) ((m - i) + 0 * m);
                          fht_pair b 0 x 0 (i + n2 * m) ((m - i) + n2 * m) } = Some u' \<and>
                     ?I (Q1 (i + 1)) u u'"
    if "1 \<le> i" "i < m2" "?I (Q1 i) t t'" for i t t'
  proof -
    note k = paired_upto_new [OF that(1,2), folded m_def]
    have pre: "i < m" "0 < n" "\<not> Q1 i i 0" "m - i < m" "\<not> Q1 i (m - i) 0" "i \<noteq> m - i \<or> (0::nat) \<noteq> 0"
      using k n2n by (simp_all add: Q1_def Q0_def)
    from sym_pair_step [OF that(3) pre(1,2,3,4,2,5,6) lxy]
    obtain v v' where v: "fht_pair t 0 y 0 (i + 0 * m) ((m - i) + 0 * m) = Some v"
      "fht_pair t' 0 x 0 (i + 0 * m) ((m - i) + 0 * m) = Some v'"
      "?I (\<lambda>c r. Q1 i c r \<or> (c = i \<and> r = 0) \<or> (c = m - i \<and> r = 0)) v v'"
      by blast
    have pre': "n2 < n" "\<not> (Q1 i i n2 \<or> (i = i \<and> n2 = 0) \<or> (i = m - i \<and> n2 = 0))"
      "\<not> (Q1 i (m - i) n2 \<or> (m - i = i \<and> n2 = 0) \<or> (m - i = m - i \<and> n2 = 0))" "i \<noteq> m - i \<or> n2 \<noteq> n2"
      using k n2n by (simp_all add: Q1_def Q0_def)
    from sym_pair_step [OF v(3) pre(1) pre'(1,2) pre(4) pre'(1,3,4) lxy]
    obtain u u' where u: "fht_pair v 0 y 0 (i + n2 * m) ((m - i) + n2 * m) = Some u"
      "fht_pair v' 0 x 0 (i + n2 * m) ((m - i) + n2 * m) = Some u'"
      "?I (\<lambda>c r. (Q1 i c r \<or> (c = i \<and> r = 0) \<or> (c = m - i \<and> r = 0)) \<or>
          (c = i \<and> r = n2) \<or> (c = m - i \<and> r = n2)) u u'"
      by blast
    have "?I (Q1 (i + 1)) u u'"
      by (rule sym_inv_cong [OF u(3)])
         (auto simp: Q1_def Q0_def paired_upto_Suc [OF that(1,2), folded m_def])
    then show ?thesis
      using v(1,2) u(1,2) by simp
  qed
  have "\<exists>u u'. for_loop 1 m2 (\<lambda>i b. do { b \<leftarrow> fht_pair b 0 y 0 (i + 0 * m) ((m - i) + 0 * m);
                          fht_pair b 0 y 0 (i + n2 * m) ((m - i) + n2 * m) }) a4 = Some u \<and>
               for_loop 1 m2 (\<lambda>i b. do { b \<leftarrow> fht_pair b 0 x 0 (i + 0 * m) ((m - i) + 0 * m);
                          fht_pair b 0 x 0 (i + n2 * m) ((m - i) + n2 * m) }) a4' = Some u' \<and>
               ?I (Q1 m2) u u'"
    by (rule for_loop_total2 [where R = "\<lambda>i. ?I (Q1 i)"]) (use m2 i1 step1 in auto)
  then obtain b1 b1' where b1:
    "for_loop 1 m2 (\<lambda>i b. do { b \<leftarrow> fht_pair b 0 y 0 (i + 0 * m) ((m - i) + 0 * m);
                          fht_pair b 0 y 0 (i + n2 * m) ((m - i) + n2 * m) }) a4 = Some b1"
    "for_loop 1 m2 (\<lambda>i b. do { b \<leftarrow> fht_pair b 0 x 0 (i + 0 * m) ((m - i) + 0 * m);
                          fht_pair b 0 x 0 (i + n2 * m) ((m - i) + n2 * m) }) a4' = Some b1'"
    "?I (Q1 m2) b1 b1'"
    by blast
  have i2: "?I (Q2 1) b1 b1'"
    by (rule sym_inv_cong [OF b1(3)])
       (auto simp: Q1_def Q0_def Q2_def paired_upto_1 paired_upto_full [of _ m2, folded m_def])
  \<comment> \<open>the columns 0 and \<open>m2\<close>\<close>
  have step2: "\<exists>u u'. do { b \<leftarrow> fht_pair t 0 y 0 (0 + j * m) (0 + (n - j) * m);
                          fht_pair b 0 y 0 (m2 + j * m) (m2 + (n - j) * m) } = Some u \<and>
                     do { b \<leftarrow> fht_pair t' 0 x 0 (0 + j * m) (0 + (n - j) * m);
                          fht_pair b 0 x 0 (m2 + j * m) (m2 + (n - j) * m) } = Some u' \<and>
                     ?I (Q2 (j + 1)) u u'"
    if "1 \<le> j" "j < n2" "?I (Q2 j) t t'" for j t t'
  proof -
    note k = paired_upto_new [OF that(1,2), folded n_def]
    have pre: "0 < m" "j < n" "\<not> Q2 j 0 j" "n - j < n" "\<not> Q2 j 0 (n - j)" "(0::nat) \<noteq> 0 \<or> j \<noteq> n - j"
      using k m2m by (simp_all add: Q2_def)
    from sym_pair_step [OF that(3) pre(1,2,3,1,4,5,6) lxy]
    obtain v v' where v: "fht_pair t 0 y 0 (0 + j * m) (0 + (n - j) * m) = Some v"
      "fht_pair t' 0 x 0 (0 + j * m) (0 + (n - j) * m) = Some v'"
      "?I (\<lambda>c r. Q2 j c r \<or> (c = 0 \<and> r = j) \<or> (c = 0 \<and> r = n - j)) v v'"
      by blast
    have pre': "m2 < m" "\<not> (Q2 j m2 j \<or> (m2 = 0 \<and> j = j) \<or> (m2 = 0 \<and> j = n - j))"
      "\<not> (Q2 j m2 (n - j) \<or> (m2 = 0 \<and> n - j = j) \<or> (m2 = 0 \<and> n - j = n - j))" "m2 \<noteq> m2 \<or> j \<noteq> n - j"
      using k m2m by (simp_all add: Q2_def)
    from sym_pair_step [OF v(3) pre'(1) pre(2) pre'(2,1) pre(4) pre'(3,4) lxy]
    obtain u u' where u: "fht_pair v 0 y 0 (m2 + j * m) (m2 + (n - j) * m) = Some u"
      "fht_pair v' 0 x 0 (m2 + j * m) (m2 + (n - j) * m) = Some u'"
      "?I (\<lambda>c r. (Q2 j c r \<or> (c = 0 \<and> r = j) \<or> (c = 0 \<and> r = n - j)) \<or>
          (c = m2 \<and> r = j) \<or> (c = m2 \<and> r = n - j)) u u'"
      by blast
    have "?I (Q2 (j + 1)) u u'"
      by (rule sym_inv_cong [OF u(3)])
         (auto simp: Q2_def paired_upto_Suc [OF that(1,2), folded n_def])
    then show ?thesis
      using v(1,2) u(1,2) by simp
  qed
  have "\<exists>u u'. for_loop 1 n2 (\<lambda>j b. do { b \<leftarrow> fht_pair b 0 y 0 (0 + j * m) (0 + (n - j) * m);
                          fht_pair b 0 y 0 (m2 + j * m) (m2 + (n - j) * m) }) b1 = Some u \<and>
               for_loop 1 n2 (\<lambda>j b. do { b \<leftarrow> fht_pair b 0 x 0 (0 + j * m) (0 + (n - j) * m);
                          fht_pair b 0 x 0 (m2 + j * m) (m2 + (n - j) * m) }) b1' = Some u' \<and>
               ?I (Q2 n2) u u'"
    by (rule for_loop_total2 [where R = "\<lambda>j. ?I (Q2 j)"]) (use n2 i2 step2 in auto)
  then obtain b2 b2' where b2:
    "for_loop 1 n2 (\<lambda>j b. do { b \<leftarrow> fht_pair b 0 y 0 (0 + j * m) (0 + (n - j) * m);
                          fht_pair b 0 y 0 (m2 + j * m) (m2 + (n - j) * m) }) b1 = Some b2"
    "for_loop 1 n2 (\<lambda>j b. do { b \<leftarrow> fht_pair b 0 x 0 (0 + j * m) (0 + (n - j) * m);
                          fht_pair b 0 x 0 (m2 + j * m) (m2 + (n - j) * m) }) b1' = Some b2'"
    "?I (Q2 n2) b2 b2'"
    by blast
  have i3: "?I (Q3 1 1) b2 b2'"
    by (rule sym_inv_cong [OF b2(3)])
       (auto simp: Q2_def Q3_def paired_upto_1 paired_upto_full [of _ n2, folded n_def])
  \<comment> \<open>the interior\<close>
  have step3: "\<exists>u u'. do { b \<leftarrow> fht_pair t 0 y 0 (i + j * m) ((m - i) + (n - j) * m);
                          fht_pair b 0 y 0 (i + (n - j) * m) ((m - i) + j * m) } = Some u \<and>
                     do { b \<leftarrow> fht_pair t' 0 x 0 (i + j * m) ((m - i) + (n - j) * m);
                          fht_pair b 0 x 0 (i + (n - j) * m) ((m - i) + j * m) } = Some u' \<and>
                     ?I (Q3 i (j + 1)) u u'"
    if "1 \<le> i" "i < m2" "1 \<le> j" "j < n2" "?I (Q3 i j) t t'" for i j t t'
  proof -
    note ki = paired_upto_new [OF that(1,2), folded m_def]
    note kj = paired_upto_new [OF that(3,4), folded n_def]
    have pre: "i < m" "j < n" "\<not> Q3 i j i j" "m - i < m" "n - j < n" "\<not> Q3 i j (m - i) (n - j)"
      "i \<noteq> m - i \<or> j \<noteq> n - j"
      using ki kj by (simp_all add: Q3_def)
    from sym_pair_step [OF that(5) pre(1,2,3,4,5,6,7) lxy]
    obtain v v' where v: "fht_pair t 0 y 0 (i + j * m) ((m - i) + (n - j) * m) = Some v"
      "fht_pair t' 0 x 0 (i + j * m) ((m - i) + (n - j) * m) = Some v'"
      "?I (\<lambda>c r. Q3 i j c r \<or> (c = i \<and> r = j) \<or> (c = m - i \<and> r = n - j)) v v'"
      by blast
    have pre': "\<not> (Q3 i j i (n - j) \<or> (i = i \<and> n - j = j) \<or> (i = m - i \<and> n - j = n - j))"
      "\<not> (Q3 i j (m - i) j \<or> (m - i = i \<and> j = j) \<or> (m - i = m - i \<and> j = n - j))"
      "i \<noteq> m - i \<or> n - j \<noteq> j"
      using ki kj by (simp_all add: Q3_def)
    from sym_pair_step [OF v(3) pre(1,5) pre'(1) pre(4,2) pre'(2,3) lxy]
    obtain u u' where u: "fht_pair v 0 y 0 (i + (n - j) * m) ((m - i) + j * m) = Some u"
      "fht_pair v' 0 x 0 (i + (n - j) * m) ((m - i) + j * m) = Some u'"
      "?I (\<lambda>c r. (Q3 i j c r \<or> (c = i \<and> r = j) \<or> (c = m - i \<and> r = n - j)) \<or>
          (c = i \<and> r = n - j) \<or> (c = m - i \<and> r = j)) u u'"
      by blast
    have "?I (Q3 i (j + 1)) u u'"
      by (rule sym_inv_cong [OF u(3)])
         (auto simp: Q3_def paired_upto_Suc [OF that(3,4), folded n_def])
    then show ?thesis
      using v(1,2) u(1,2) by simp
  qed
  have col3: "\<exists>u u'. for_loop 1 n2 (\<lambda>j b. do {
            b \<leftarrow> fht_pair b 0 y 0 (i + j * m) ((m - i) + (n - j) * m);
            fht_pair b 0 y 0 (i + (n - j) * m) ((m - i) + j * m) }) t = Some u \<and>
          for_loop 1 n2 (\<lambda>j b. do {
            b \<leftarrow> fht_pair b 0 x 0 (i + j * m) ((m - i) + (n - j) * m);
            fht_pair b 0 x 0 (i + (n - j) * m) ((m - i) + j * m) }) t' = Some u' \<and>
          ?I (Q3 (i + 1) 1) u u'"
    if "1 \<le> i" "i < m2" "?I (Q3 i 1) t t'" for i t t'
  proof -
    have "\<exists>u u'. for_loop 1 n2 (\<lambda>j b. do {
            b \<leftarrow> fht_pair b 0 y 0 (i + j * m) ((m - i) + (n - j) * m);
            fht_pair b 0 y 0 (i + (n - j) * m) ((m - i) + j * m) }) t = Some u \<and>
          for_loop 1 n2 (\<lambda>j b. do {
            b \<leftarrow> fht_pair b 0 x 0 (i + j * m) ((m - i) + (n - j) * m);
            fht_pair b 0 x 0 (i + (n - j) * m) ((m - i) + j * m) }) t' = Some u' \<and>
          ?I (Q3 i n2) u u'"
      by (rule for_loop_total2 [where R = "\<lambda>j. ?I (Q3 i j)"]) (use n2 that step3 in auto)
    then obtain u u' where u: "for_loop 1 n2 (\<lambda>j b. do {
            b \<leftarrow> fht_pair b 0 y 0 (i + j * m) ((m - i) + (n - j) * m);
            fht_pair b 0 y 0 (i + (n - j) * m) ((m - i) + j * m) }) t = Some u"
          "for_loop 1 n2 (\<lambda>j b. do {
            b \<leftarrow> fht_pair b 0 x 0 (i + j * m) ((m - i) + (n - j) * m);
            fht_pair b 0 x 0 (i + (n - j) * m) ((m - i) + j * m) }) t' = Some u'"
          "?I (Q3 i n2) u u'"
      by blast
    have "?I (Q3 (i + 1) 1) u u'"
      by (rule sym_inv_cong [OF u(3)])
         (auto simp: Q3_def paired_upto_1 paired_upto_Suc [OF that(1,2), folded m_def]
            paired_upto_full [of _ n2, folded n_def])
    then show ?thesis using u(1,2) by blast
  qed
  have "\<exists>u u'. for_loop 1 m2 (\<lambda>i b. for_loop 1 n2 (\<lambda>j b. do {
            b \<leftarrow> fht_pair b 0 y 0 (i + j * m) ((m - i) + (n - j) * m);
            fht_pair b 0 y 0 (i + (n - j) * m) ((m - i) + j * m) }) b) b2 = Some u \<and>
          for_loop 1 m2 (\<lambda>i b. for_loop 1 n2 (\<lambda>j b. do {
            b \<leftarrow> fht_pair b 0 x 0 (i + j * m) ((m - i) + (n - j) * m);
            fht_pair b 0 x 0 (i + (n - j) * m) ((m - i) + j * m) }) b) b2' = Some u' \<and>
          ?I (Q3 m2 1) u u'"
    by (rule for_loop_total2 [where R = "\<lambda>i. ?I (Q3 i 1)"]) (use m2 i3 col3 in auto)
  then obtain b3 b3' where b3:
    "for_loop 1 m2 (\<lambda>i b. for_loop 1 n2 (\<lambda>j b. do {
            b \<leftarrow> fht_pair b 0 y 0 (i + j * m) ((m - i) + (n - j) * m);
            fht_pair b 0 y 0 (i + (n - j) * m) ((m - i) + j * m) }) b) b2 = Some b3"
    "for_loop 1 m2 (\<lambda>i b. for_loop 1 n2 (\<lambda>j b. do {
            b \<leftarrow> fht_pair b 0 x 0 (i + j * m) ((m - i) + (n - j) * m);
            fht_pair b 0 x 0 (i + (n - j) * m) ((m - i) + j * m) }) b) b2' = Some b3'"
    "?I (Q3 m2 1) b3 b3'"
    by blast
  have all: "Q3 m2 1 c r" if "c < m" "r < n" for c r
    using that by (auto simp: Q3_def paired_upto_full [of _ m2, folded m_def])
  have "b3 = b3'"
  proof (rule nth_equalityI)
    show "length b3 = length b3'" using b3(3) by (simp add: sym_inv_def)
  next
    fix k assume "k < length b3"
    then have k: "k < m * n" using b3(3) by (simp add: sym_inv_def)
    have mpos: "0 < m" using m2 by (simp add: m_def)
    have c: "k mod m < m" using mpos by simp
    have "k div m < n"
      using k mpos by (simp add: less_mult_imp_div_less mult.commute)
    then have "Q3 m2 1 (k mod m) (k div m)" "k div m < n"
      using all [OF c] by simp_all
    then have "b3 ! (k mod m + (k div m) * m) = b3' ! (k mod m + (k div m) * m)"
      using b3(3) c unfolding sym_inv_def by metis
    then show "b3 ! k = b3' ! k" by simp
  qed
  then show ?thesis
    unfolding chain_def using a1 a2 a3 a4 b1 b2 b3 by simp
qed

text \<open>C10: for buffers \<open>x\<close> and \<open>y\<close> of \<open>2^N\<close> rows and \<open>2^M\<close> columns with \<open>M \<ge> 1\<close> and
  \<open>N \<ge> 1\<close>, what \<^verbatim>\<open>fht_convolve(x, y, M, N)\<close> leaves in \<open>x\<close> is what
  \<^verbatim>\<open>fht_convolve(y, x, M, N)\<close> leaves in \<open>y\<close>; both calls return.\<close>

theorem fht_convolve_commutative:
  assumes M: "1 \<le> M" and N: "1 \<le> N"
    and lx: "length x = 2 ^ N * 2 ^ M" and ly: "length y = 2 ^ N * 2 ^ M"
  shows "\<exists>r. fht_convolve x 0 y 0 M N = Some r \<and> fht_convolve y 0 x 0 M N = Some r"
proof -
  obtain M' N' where MN: "M = Suc M'" "N = Suc N'"
    using M N by (metis Suc_le_D One_nat_def)
  define m2 :: nat where "m2 = 2 ^ M'"
  define n2 :: nat where "n2 = 2 ^ N'"
  have pos: "0 < m2" "0 < n2"
    by (simp_all add: m2_def n2_def)
  have len: "length x = (2 * m2) * (2 * n2)" "length y = (2 * m2) * (2 * n2)"
    using lx ly by (simp_all add: MN m2_def n2_def)
  have eq: "fht_convolve b1 0 b2 0 M N = do {
        b \<leftarrow> fht_corner b1 0 b2 0 (0 + 0 * (2 * m2));
        b \<leftarrow> fht_corner b 0 b2 0 (0 + n2 * (2 * m2));
        b \<leftarrow> fht_corner b 0 b2 0 (m2 + 0 * (2 * m2));
        b \<leftarrow> fht_corner b 0 b2 0 (m2 + n2 * (2 * m2));
        b \<leftarrow> for_loop 1 m2 (\<lambda>i b. do {
               b \<leftarrow> fht_pair b 0 b2 0 (i + 0 * (2 * m2)) ((2 * m2 - i) + 0 * (2 * m2));
               fht_pair b 0 b2 0 (i + n2 * (2 * m2)) ((2 * m2 - i) + n2 * (2 * m2))
             }) b;
        b \<leftarrow> for_loop 1 n2 (\<lambda>j b. do {
               b \<leftarrow> fht_pair b 0 b2 0 (0 + j * (2 * m2)) (0 + (2 * n2 - j) * (2 * m2));
               fht_pair b 0 b2 0 (m2 + j * (2 * m2)) (m2 + (2 * n2 - j) * (2 * m2))
             }) b;
        for_loop 1 m2 (\<lambda>i b.
          for_loop 1 n2 (\<lambda>j b. do {
            b \<leftarrow> fht_pair b 0 b2 0 (i + j * (2 * m2)) ((2 * m2 - i) + (2 * n2 - j) * (2 * m2));
            fht_pair b 0 b2 0 (i + (2 * n2 - j) * (2 * m2)) ((2 * m2 - i) + j * (2 * m2))
          }) b) b
      }" for b1 b2
    by (simp add: fht_convolve_def Let_def push_bit_eq_mult MN m2_def n2_def mult_ac)
  show ?thesis
    unfolding eq by (rule fht_convolve_symmetric_aux [OF pos len])
qed

theorem fht_convolve_commutative_witness:
  "\<exists>r. fht_convolve [1, 2, 3, 4] 0 [5, 6, 7, 8] 0 1 1 = Some r \<and>
       fht_convolve [5, 6, 7, 8] 0 [1, 2, 3, 4] 0 1 1 = Some r"
  using fht_convolve_commutative [of 1 1 "[1, 2, 3, 4]" "[5, 6, 7, 8]"] by simp

end
